theory Spec2Isabelle
  imports Main "HOL-Library.Word"
begin

unbundle bit_operations_syntax

section \<open>Data model of \<^verbatim>\<open>hash.go\<close>\<close>

text \<open>
  Go's \<^verbatim>\<open>uint64\<close> and \<^verbatim>\<open>byte\<close> are machine words: addition wraps modulo
  \<open>2 ^ 64\<close>, a shift of a byte drops the bits that leave the byte. A slice is a list
  whose capacity equals its length. A \<^verbatim>\<open>Matrix\<close> is a list of rows; a
  \<^verbatim>\<open>LookupTable\<close> is a list of rows, each a list of cells, each cell the 256
  words of the Go array \<^verbatim>\<open>[256]uint64\<close>.
\<close>

type_synonym u64 = "64 word"
type_synonym byte = "8 word"
type_synonym Matrix = "u64 list list"
type_synonym LookupTable = "u64 list list list"

text \<open>
  A panic of the Go runtime or of the code itself is a value. \<open>OutOfRange\<close> stands
  for the runtime's bounds failures (an index or a slice bound out of range),
  \<open>DivideByZero\<close> for an integer division by zero, \<open>MakeLen\<close> for
  \<^verbatim>\<open>make\<close> with a negative length, \<open>ReadError\<close> for the
  \<^verbatim>\<open>panic(err)\<close> of \<^verbatim>\<open>RandomMatrix\<close> and \<open>NxNotZero\<close> for
  \<^verbatim>\<open>panic("d.nx != 0")\<close> of \<^verbatim>\<open>checkSum\<close>.
\<close>

datatype panic = OutOfRange | DivideByZero | MakeLen | ReadError | NxNotZero

subsection \<open>Bit test shared by \<^verbatim>\<open>sumBits\<close> and \<^verbatim>\<open>Matrix.Compress\<close>\<close>

text \<open>The Go expression \<^verbatim>\<open>(v << b) & 0x80 > 0\<close> on a byte \<open>v\<close>.\<close>

definition shl_msb :: "byte \<Rightarrow> nat \<Rightarrow> bool" where
  "shl_msb v b = (push_bit b v AND 0x80 > 0)"

subsection \<open>\<^verbatim>\<open>sumBits\<close>\<close>

text \<open>
  \<^verbatim>\<open>for i := 0; i < 8; i++ { if b<<i&0x80 > 0 { x += as[i] } }\<close>: the loop over
  the list of indices still to visit, with the accumulator \<open>x\<close>. Reading
  \<^verbatim>\<open>as[i]\<close> beyond the slice panics.
\<close>

fun sumBits_loop :: "u64 list \<Rightarrow> byte \<Rightarrow> nat list \<Rightarrow> u64 \<Rightarrow> panic + u64" where
  "sumBits_loop as b [] x = Inr x"
| "sumBits_loop as b (i # is) x =
     (if shl_msb b i
      then (if i < length as then sumBits_loop as b is (x + as ! i) else Inl OutOfRange)
      else sumBits_loop as b is x)"

definition sumBits :: "u64 list \<Rightarrow> byte \<Rightarrow> panic + u64" where
  "sumBits as b = sumBits_loop as b [0..<8] 0"

subsection \<open>\<^verbatim>\<open>Matrix.LookupTable\<close>\<close>

text \<open>
  The innermost loop \<^verbatim>\<open>for b := 0; b < 256; b++\<close> with its body
  \<^verbatim>\<open>At[i][j/8][b] = sumBits(A[i][j:j+8], byte(b))\<close>. \<open>row\<close> is \<^verbatim>\<open>A[i]\<close>
  and \<open>Ati\<close> is \<^verbatim>\<open>At[i]\<close>. The slice \<^verbatim>\<open>A[i][j:j+8]\<close> panics when
  \<open>j + 8\<close> exceeds the row, the index \<^verbatim>\<open>At[i][j/8]\<close> when \<open>j div 8\<close> is not a
  cell of \<^verbatim>\<open>At[i]\<close>.
\<close>

fun LookupTable_cell :: "u64 list \<Rightarrow> nat \<Rightarrow> nat list \<Rightarrow> u64 list list \<Rightarrow> panic + u64 list list" where
  "LookupTable_cell row j [] Ati = Inr Ati"
| "LookupTable_cell row j (b # bs) Ati =
     (if length row < j + 8 then Inl OutOfRange
      else case sumBits (take 8 (drop j row)) (of_nat b) of
             Inl e \<Rightarrow> Inl e
           | Inr s \<Rightarrow>
               (if j div 8 < length Ati \<and> b < length (Ati ! (j div 8))
                then LookupTable_cell row j bs (Ati[j div 8 := (Ati ! (j div 8))[b := s]])
                else Inl OutOfRange))"

text \<open>The loop \<^verbatim>\<open>for j := 0; j < M; j += 8\<close>.\<close>

function LookupTable_row :: "u64 list \<Rightarrow> nat \<Rightarrow> nat \<Rightarrow> u64 list list \<Rightarrow> panic + u64 list list" where
  "LookupTable_row row M j Ati =
     (if j < M
      then (case LookupTable_cell row j [0..<256] Ati of
              Inl e \<Rightarrow> Inl e
            | Inr Ati' \<Rightarrow> LookupTable_row row M (j + 8) Ati')
      else Inr Ati)"
  by pat_completeness auto
termination
  by (relation "measure (\<lambda>(row, M, j, Ati). M - j)") auto

text \<open>
  The loop \<^verbatim>\<open>for i := range A\<close>: \<open>rows\<close> are the rows from \<open>i\<close> on,
  \<^verbatim>\<open>At[i] = make([][256]uint64, M/8)\<close> is a row of \<open>M div 8\<close> zeroed cells.
\<close>

fun LookupTable_rows :: "Matrix \<Rightarrow> nat \<Rightarrow> nat \<Rightarrow> LookupTable \<Rightarrow> panic + LookupTable" where
  "LookupTable_rows [] M i At = Inr At"
| "LookupTable_rows (row # rows) M i At =
     (if i < length At
      then (case LookupTable_row row M 0 (replicate (M div 8) (replicate 256 0)) of
              Inl e \<Rightarrow> Inl e
            | Inr Ati \<Rightarrow> LookupTable_rows rows M (Suc i) (At[i := Ati]))
      else Inl OutOfRange)"

text \<open>
  \<^verbatim>\<open>N := len(A); M := len(A[0]); At := make(LookupTable, N)\<close>: reading
  \<^verbatim>\<open>A[0]\<close> of a matrix with no row panics.
\<close>

definition LookupTable :: "Matrix \<Rightarrow> panic + LookupTable" where
  "LookupTable A =
     (case A of
        [] \<Rightarrow> Inl OutOfRange
      | row0 # _ \<Rightarrow> LookupTable_rows A (length row0) 0 (replicate (length A) []))"

subsection \<open>\<^verbatim>\<open>Matrix.Compress\<close>\<close>

text \<open>
  A \<^verbatim>\<open>Compress\<close> call overwrites words of the caller's \<open>dst\<close>. Its result is
  \<open>Inr dst'\<close>, the destination after the call, or \<open>Inl (e, dst')\<close>: the panic \<open>e\<close>
  and what the destination holds at that moment.

  The loop \<^verbatim>\<open>for b := 0; b < 8; b++\<close> of row \<open>row\<close> at message byte \<open>j\<close> of
  value \<open>v\<close>: \<^verbatim>\<open>if (msg[j]<<b)&0x80 > 0 { x += A[i][8*j+b] }\<close>.
\<close>

fun Matrix_bits :: "u64 list \<Rightarrow> nat \<Rightarrow> byte \<Rightarrow> nat list \<Rightarrow> u64 \<Rightarrow> panic + u64" where
  "Matrix_bits row j v [] x = Inr x"
| "Matrix_bits row j v (b # bs) x =
     (if shl_msb v b
      then (if 8 * j + b < length row then Matrix_bits row j v bs (x + row ! (8 * j + b))
            else Inl OutOfRange)
      else Matrix_bits row j v bs x)"

text \<open>The loop \<^verbatim>\<open>for j := range msg\<close>: \<open>vs\<close> are the bytes from \<open>j\<close> on.\<close>

fun Matrix_bytes :: "u64 list \<Rightarrow> nat \<Rightarrow> byte list \<Rightarrow> u64 \<Rightarrow> panic + u64" where
  "Matrix_bytes row j [] x = Inr x"
| "Matrix_bytes row j (v # vs) x =
     (case Matrix_bits row j v [0..<8] x of
        Inl e \<Rightarrow> Inl e
      | Inr x' \<Rightarrow> Matrix_bytes row (Suc j) vs x')"

text \<open>
  The loop \<^verbatim>\<open>for i := range A { x = 0; ...; dst[i] = x }\<close>: \<open>rows\<close> are the rows
  from \<open>i\<close> on.
\<close>

fun Matrix_rows :: "Matrix \<Rightarrow> nat \<Rightarrow> byte list \<Rightarrow> u64 list \<Rightarrow> panic \<times> u64 list + u64 list" where
  "Matrix_rows [] i msg dst = Inr dst"
| "Matrix_rows (row # rows) i msg dst =
     (case Matrix_bytes row 0 msg 0 of
        Inl e \<Rightarrow> Inl (e, dst)
      | Inr x \<Rightarrow>
          (if i < length dst then Matrix_rows rows (Suc i) msg (dst[i := x])
           else Inl (OutOfRange, dst)))"

text \<open>
  The two guards \<^verbatim>\<open>_ = msg[len(A[0])/8-1]\<close> and \<^verbatim>\<open>_ = dst[len(A)-1]\<close>
  come first. Go's \<^verbatim>\<open>int\<close> is \<open>int\<close> here: the index \<open>- 1\<close> of a matrix with
  fewer than 8 columns (or of no row) is out of range as well.
\<close>

definition Matrix_Compress :: "Matrix \<Rightarrow> u64 list \<Rightarrow> byte list \<Rightarrow> panic \<times> u64 list + u64 list" where
  "Matrix_Compress A dst msg =
     (case A of
        [] \<Rightarrow> Inl (OutOfRange, dst)
      | row0 # _ \<Rightarrow>
          (let k = int (length row0) div 8 - 1 in
           if k < 0 \<or> int (length msg) \<le> k then Inl (OutOfRange, dst)
           else if int (length A) - 1 < 0 \<or> int (length dst) \<le> int (length A) - 1
                then Inl (OutOfRange, dst)
           else Matrix_rows A 0 msg dst))"

definition Matrix_InputLen :: "Matrix \<Rightarrow> panic + int" where
  "Matrix_InputLen A = (case A of [] \<Rightarrow> Inl OutOfRange | row0 # _ \<Rightarrow> Inr (int (length row0) div 8))"

definition Matrix_OutputLen :: "Matrix \<Rightarrow> panic + int" where
  "Matrix_OutputLen A = Inr (int (length A))"

subsection \<open>\<^verbatim>\<open>LookupTable.Compress\<close>\<close>

text \<open>
  The loop \<^verbatim>\<open>for j := range A[i] { x += A[i][j][msg[j]] }\<close>: \<open>cells\<close> are the
  cells of the row from \<open>j\<close> on. A Go cell has 256 words, so only \<^verbatim>\<open>msg[j]\<close>
  can be out of range there; a cell of the model is a list, and an index beyond it is
  the same panic.
\<close>

fun LookupTable_cells :: "u64 list list \<Rightarrow> nat \<Rightarrow> byte list \<Rightarrow> u64 \<Rightarrow> panic + u64" where
  "LookupTable_cells [] j msg x = Inr x"
| "LookupTable_cells (cell # cells) j msg x =
     (if j < length msg \<and> unat (msg ! j) < length cell
      then LookupTable_cells cells (Suc j) msg (x + cell ! unat (msg ! j))
      else Inl OutOfRange)"

fun LookupTable_compress_rows :: "LookupTable \<Rightarrow> nat \<Rightarrow> byte list \<Rightarrow> u64 list \<Rightarrow> panic \<times> u64 list + u64 list" where
  "LookupTable_compress_rows [] i msg dst = Inr dst"
| "LookupTable_compress_rows (row # rows) i msg dst =
     (case LookupTable_cells row 0 msg 0 of
        Inl e \<Rightarrow> Inl (e, dst)
      | Inr x \<Rightarrow>
          (if i < length dst then LookupTable_compress_rows rows (Suc i) msg (dst[i := x])
           else Inl (OutOfRange, dst)))"

definition LookupTable_Compress :: "LookupTable \<Rightarrow> u64 list \<Rightarrow> byte list \<Rightarrow> panic \<times> u64 list + u64 list" where
  "LookupTable_Compress At dst msg =
     (case At of
        [] \<Rightarrow> Inl (OutOfRange, dst)
      | row0 # _ \<Rightarrow>
          (let k = int (length row0) - 1 in
           if k < 0 \<or> int (length msg) \<le> k then Inl (OutOfRange, dst)
           else if int (length At) - 1 < 0 \<or> int (length dst) \<le> int (length At) - 1
                then Inl (OutOfRange, dst)
           else LookupTable_compress_rows At 0 msg dst))"

definition LookupTable_InputLen :: "LookupTable \<Rightarrow> panic + int" where
  "LookupTable_InputLen At = (case At of [] \<Rightarrow> Inl OutOfRange | row0 # _ \<Rightarrow> Inr (int (length row0)))"

definition LookupTable_OutputLen :: "LookupTable \<Rightarrow> panic + int" where
  "LookupTable_OutputLen At = Inr (int (length At))"

section \<open>The compression capability\<close>

text \<open>
  The Go interface \<^verbatim>\<open>Compressor\<close>: a value with the three methods. A method of
  the model is a function of its arguments alone: a compressor holds no state of its own
  that a call changes, as the two compressors of this repository do not.
\<close>

record Compressor =
  Compress :: "u64 list \<Rightarrow> byte list \<Rightarrow> panic \<times> u64 list + u64 list"
  InputLen :: "panic + int"
  OutputLen :: "panic + int"

definition Matrix_Compressor :: "Matrix \<Rightarrow> Compressor" where
  "Matrix_Compressor A =
     \<lparr>Compress = Matrix_Compress A, InputLen = Matrix_InputLen A, OutputLen = Matrix_OutputLen A\<rparr>"

definition LookupTable_Compressor :: "LookupTable \<Rightarrow> Compressor" where
  "LookupTable_Compressor At =
     \<lparr>Compress = LookupTable_Compress At, InputLen = LookupTable_InputLen At,
      OutputLen = LookupTable_OutputLen At\<rparr>"

section \<open>The streaming digest\<close>

subsection \<open>Results, slices and byte order\<close>

text \<open>
  A call of the digest layer returns \<open>Some (Inr v)\<close>, panics with \<open>Some (Inl e)\<close>, or
  does not return: \<open>None\<close> (the loop of \<^verbatim>\<open>blocks\<close> with a block size of 0).
\<close>

type_synonym 'a result = "(panic + 'a) option"

definition and_then :: "'a result \<Rightarrow> ('a \<Rightarrow> 'b result) \<Rightarrow> 'b result" where
  "and_then r f = (case r of None \<Rightarrow> None | Some (Inl e) \<Rightarrow> Some (Inl e) | Some (Inr v) \<Rightarrow> f v)"

text \<open>
  Go's builtin \<^verbatim>\<open>copy(dst, src)\<close>: the contents of \<open>dst\<close> afterwards. It copies
  \<open>min (length dst) (length src)\<close> elements, the number it returns.
\<close>

definition copy_slice :: "'a list \<Rightarrow> 'a list \<Rightarrow> 'a list" where
  "copy_slice dst src = take (length dst) src @ drop (length src) dst"

text \<open>Go's \<^verbatim>\<open>/\<close> on \<^verbatim>\<open>int\<close> truncates towards zero.\<close>

definition go_div :: "int \<Rightarrow> int \<Rightarrow> int" where
  "go_div a b = sgn a * sgn b * (\<bar>a\<bar> div \<bar>b\<bar>)"

text \<open>
  \<^verbatim>\<open>binary.LittleEndian.PutUint64\<close>: the 8 bytes it stores, least significant
  first; \<^verbatim>\<open>binary.LittleEndian.Uint64\<close>: the word of the first 8 bytes of a slice
  (the callers here pass 8 bytes).
\<close>

definition PutUint64 :: "u64 \<Rightarrow> byte list" where
  "PutUint64 v = map (\<lambda>k. ucast (drop_bit (8 * k) v)) [0..<8]"

definition Uint64 :: "byte list \<Rightarrow> u64" where
  "Uint64 b =
     ucast (b ! 0) OR push_bit 8 (ucast (b ! 1)) OR push_bit 16 (ucast (b ! 2)) OR
     push_bit 24 (ucast (b ! 3)) OR push_bit 32 (ucast (b ! 4)) OR push_bit 40 (ucast (b ! 5)) OR
     push_bit 48 (ucast (b ! 6)) OR push_bit 56 (ucast (b ! 7))"

text \<open>
  The loop \<^verbatim>\<open>for j := range h { PutUint64(buf[8*j:8*j+8], h[j]) }\<close> of
  \<^verbatim>\<open>blocks\<close> and of \<^verbatim>\<open>checkSum\<close>: \<open>ws\<close> are the words from \<open>j\<close> on. The
  slice \<^verbatim>\<open>buf[8*j:8*j+8]\<close> panics beyond the buffer.
\<close>

fun put_words :: "u64 list \<Rightarrow> nat \<Rightarrow> byte list \<Rightarrow> panic + byte list" where
  "put_words [] j buf = Inr buf"
| "put_words (w # ws) j buf =
     (if 8 * j + 8 \<le> length buf
      then put_words ws (Suc j) (take (8 * j) buf @ PutUint64 w @ drop (8 * j + 8) buf)
      else Inl OutOfRange)"

subsection \<open>The state\<close>

text \<open>
  The struct \<^verbatim>\<open>digest\<close>, its fields under the prefix \<open>d_\<close>. The slices
  \<^verbatim>\<open>h\<close> and \<^verbatim>\<open>x\<close> are held by their contents: every instance owns its two
  arrays (\<^verbatim>\<open>New\<close> and \<^verbatim>\<open>copy\<close> allocate them, nothing else assigns the
  fields). \<open>d_calls\<close> is not a field of the Go struct: it records the \<open>msg\<close> argument of
  every \<^verbatim>\<open>Compress\<close> call made through the instance, in order, so that the
  number of compression calls can be stated. Nothing reads it.
\<close>

record digest =
  d_c :: Compressor
  d_size :: int
  d_blockSize :: int
  d_h :: "u64 list"
  d_x :: "byte list"
  d_nx :: int
  d_len :: u64
  d_calls :: "byte list list"

subsection \<open>\<^verbatim>\<open>blocks\<close>\<close>

text \<open>
  The loop \<^verbatim>\<open>for i := 0; i <= len(data)-d.blockSize; i += d.blockSize\<close>, with
  the buffer \<open>msg\<close> it reuses. With a block size of 0 the loop never ends. The slices
  \<^verbatim>\<open>msg[d.size:d.size+d.blockSize]\<close> and \<^verbatim>\<open>data[i:i+d.blockSize]\<close> panic
  when their bounds are not ordered inside the slice.
\<close>

partial_function (option) blocks_loop :: "digest \<Rightarrow> byte list \<Rightarrow> byte list \<Rightarrow> int \<Rightarrow> (panic + digest) option" where
  "blocks_loop d data msg i =
     (if i \<le> int (length data) - d_blockSize d
      then (case put_words (d_h d) 0 msg of
              Inl e \<Rightarrow> Some (Inl e)
            | Inr msg1 \<Rightarrow>
                (if \<not> (0 \<le> d_size d \<and> 0 \<le> d_blockSize d \<and>
                        d_size d + d_blockSize d \<le> int (length msg1))
                 then Some (Inl OutOfRange)
                 else if \<not> (0 \<le> i \<and> i + d_blockSize d \<le> int (length data))
                 then Some (Inl OutOfRange)
                 else (let msg2 = take (nat (d_size d)) msg1 @
                                  copy_slice (take (nat (d_blockSize d)) (drop (nat (d_size d)) msg1))
                                             (take (nat (d_blockSize d)) (drop (nat i) data)) @
                                  drop (nat (d_size d + d_blockSize d)) msg1
                       in case Compress (d_c d) (d_h d) msg2 of
                            Inl eh \<Rightarrow> Some (Inl (fst eh))
                          | Inr h' \<Rightarrow>
                              blocks_loop (d\<lparr>d_h := h', d_calls := d_calls d @ [msg2]\<rparr>) data msg2
                                (i + d_blockSize d))))
      else Some (Inr d))"

declare blocks_loop.simps [code]

text \<open>\<^verbatim>\<open>msg := make([]byte, d.c.InputLen())\<close>, then the loop.\<close>

definition blocks :: "digest \<Rightarrow> byte list \<Rightarrow> digest result" where
  "blocks d data =
     (case InputLen (d_c d) of
        Inl e \<Rightarrow> Some (Inl e)
      | Inr n \<Rightarrow> if n < 0 then Some (Inl MakeLen) else blocks_loop d data (replicate (nat n) 0) 0)"

subsection \<open>\<^verbatim>\<open>Reset\<close> and \<^verbatim>\<open>New\<close>\<close>

definition Reset :: "digest \<Rightarrow> digest" where
  "Reset d = d\<lparr>d_h := map (\<lambda>_. 0) (d_h d), d_nx := 0, d_len := 0\<rparr>"

text \<open>
  \<^verbatim>\<open>New\<close> calls \<^verbatim>\<open>OutputLen\<close>, \<^verbatim>\<open>InputLen\<close>, allocates \<^verbatim>\<open>d.x\<close>,
  calls \<^verbatim>\<open>OutputLen\<close> again and allocates \<^verbatim>\<open>d.h\<close>; \<^verbatim>\<open>make\<close> panics
  on a negative length.
\<close>

definition New :: "Compressor \<Rightarrow> digest result" where
  "New c =
     (case OutputLen c of
        Inl e \<Rightarrow> Some (Inl e)
      | Inr n \<Rightarrow>
          (case InputLen c of
             Inl e \<Rightarrow> Some (Inl e)
           | Inr m \<Rightarrow>
               (if m - n * 8 < 0 then Some (Inl MakeLen)
                else if n < 0 then Some (Inl MakeLen)
                else Some (Inr (Reset
                  \<lparr>d_c = c, d_size = n * 8, d_blockSize = m - n * 8,
                   d_h = replicate (nat n) 0, d_x = replicate (nat (m - n * 8)) 0,
                   d_nx = 0, d_len = 0, d_calls = []\<rparr>)))))"

definition Size :: "digest \<Rightarrow> int" where
  "Size d = d_size d"

definition BlockSize :: "digest \<Rightarrow> int" where
  "BlockSize d = d_blockSize d"

subsection \<open>\<^verbatim>\<open>Write\<close>\<close>

text \<open>
  The three \<^verbatim>\<open>if\<close> statements of \<^verbatim>\<open>Write\<close>, each a step on the pair of
  the instance and the bytes \<open>p\<close> still to take. First the carry buffer:
  \<^verbatim>\<open>n := copy(d.x[d.nx:], p); d.nx += n\<close>, a full buffer is compressed.
\<close>

definition Write_carry :: "digest \<times> byte list \<Rightarrow> (digest \<times> byte list) result" where
  "Write_carry s =
     (case s of (d, p) \<Rightarrow>
        if d_nx d > 0
        then (if int (length (d_x d)) < d_nx d then Some (Inl OutOfRange)
              else (let n = min (length (d_x d) - nat (d_nx d)) (length p);
                        d1 = d\<lparr>d_x := take (nat (d_nx d)) (d_x d) @
                                       copy_slice (drop (nat (d_nx d)) (d_x d)) p,
                               d_nx := d_nx d + int n\<rparr>
                    in and_then
                         (if d_nx d1 = d_blockSize d1
                          then and_then (blocks d1 (d_x d1)) (\<lambda>d2. Some (Inr (d2\<lparr>d_nx := 0\<rparr>)))
                          else Some (Inr d1))
                         (\<lambda>d3. Some (Inr (d3, drop n p)))))
        else Some (Inr (d, p)))"

text \<open>
  Then the full blocks, straight from \<open>p\<close>:
  \<^verbatim>\<open>n := len(p) / d.blockSize * d.blockSize; blocks(d, p[:n]); p = p[n:]\<close>.
\<close>

definition Write_full :: "digest \<times> byte list \<Rightarrow> (digest \<times> byte list) result" where
  "Write_full s =
     (case s of (d, p) \<Rightarrow>
        if d_blockSize d \<le> int (length p)
        then (if d_blockSize d = 0 then Some (Inl DivideByZero)
              else (let n = go_div (int (length p)) (d_blockSize d) * d_blockSize d
                    in if n < 0 \<or> int (length p) < n then Some (Inl OutOfRange)
                       else and_then (blocks d (take (nat n) p))
                              (\<lambda>d1. Some (Inr (d1, drop (nat n) p)))))
        else Some (Inr (d, p)))"

text \<open>Then the tail: \<^verbatim>\<open>if len(p) > 0 { d.nx = copy(d.x[:], p) }\<close>.\<close>

definition Write_tail :: "digest \<times> byte list \<Rightarrow> digest result" where
  "Write_tail s =
     (case s of (d, p) \<Rightarrow>
        if length p > 0
        then Some (Inr (d\<lparr>d_x := copy_slice (d_x d) p,
                           d_nx := int (min (length (d_x d)) (length p))\<rparr>))
        else Some (Inr d))"

text \<open>
  \<^verbatim>\<open>Write\<close> returns \<^verbatim>\<open>len(p)\<close> and a nil error whenever it returns; the model
  returns the instance.
\<close>

definition Write :: "digest \<Rightarrow> byte list \<Rightarrow> digest result" where
  "Write d p =
     and_then (Write_carry (d\<lparr>d_len := d_len d + of_nat (length p)\<rparr>, p))
       (\<lambda>s1. and_then (Write_full s1) Write_tail)"

text \<open>A sequence of \<^verbatim>\<open>Write\<close> calls on one instance, in order.\<close>

fun Write_all :: "digest \<Rightarrow> byte list list \<Rightarrow> digest result" where
  "Write_all d [] = Some (Inr d)"
| "Write_all d (p # ps) = and_then (Write d p) (\<lambda>d1. Write_all d1 ps)"

subsection \<open>\<^verbatim>\<open>copy\<close>, \<^verbatim>\<open>checkSum\<close> and \<^verbatim>\<open>Sum\<close>\<close>

definition copy :: "digest \<Rightarrow> digest" where
  "copy d =
     \<lparr>d_c = d_c d, d_size = d_size d, d_blockSize = d_blockSize d,
      d_h = copy_slice (replicate (length (d_h d)) 0) (d_h d),
      d_x = copy_slice (replicate (length (d_x d)) 0) (d_x d),
      d_nx = d_nx d, d_len = d_len d, d_calls = d_calls d\<rparr>"

text \<open>
  The padding of \<^verbatim>\<open>checkSum\<close>, up to the second \<^verbatim>\<open>d.Write\<close>. \<open>B\<close> and
  \<open>P\<close> are \<^verbatim>\<open>uint64\<close>: \<open>B - 8\<close> wraps below 8. \<^verbatim>\<open>make([]byte, B)\<close> panics
  when the block size is negative, \<^verbatim>\<open>tmp[0] = 0x80\<close> when it is 0, a slice
  \<^verbatim>\<open>tmp[0:k]\<close> when \<open>k\<close> exceeds \<open>B\<close>. The length written is read from
  \<^verbatim>\<open>d.len\<close> after the first \<^verbatim>\<open>d.Write\<close>.
\<close>

definition checkSum_pad :: "digest \<Rightarrow> digest result" where
  "checkSum_pad d =
     (let B = (word_of_int (d_blockSize d) :: u64); P = B - 8 in
      if d_blockSize d < 0 then Some (Inl MakeLen)
      else (let tmp = replicate (nat (d_blockSize d)) (0 :: byte) in
            if length tmp = 0 then Some (Inl OutOfRange)
            else (let tmp = tmp[0 := 0x80];
                      k = (if d_len d mod B < P then unat (P - d_len d mod B)
                           else unat (B + P - d_len d mod B))
                  in if length tmp < k then Some (Inl OutOfRange)
                     else and_then (Write d (take k tmp))
                            (\<lambda>d1. if length tmp < 8 then Some (Inl OutOfRange)
                                   else Write d1 (PutUint64 (push_bit 3 (d_len d1)))))))"

text \<open>
  The rest of \<^verbatim>\<open>checkSum\<close>: the assertion, then
  \<^verbatim>\<open>digest := make([]byte, d.size)\<close> and the words of \<^verbatim>\<open>d.h\<close>. The result is
  the instance as \<^verbatim>\<open>checkSum\<close> leaves it, and the bytes.
\<close>

definition checkSum :: "digest \<Rightarrow> (digest \<times> byte list) result" where
  "checkSum d =
     and_then (checkSum_pad d)
       (\<lambda>d2. if d_nx d2 \<noteq> 0 then Some (Inl NxNotZero)
              else if d_size d2 < 0 then Some (Inl MakeLen)
              else (case put_words (d_h d2) 0 (replicate (nat (d_size d2)) 0) of
                      Inl e \<Rightarrow> Some (Inl e)
                    | Inr bs \<Rightarrow> Some (Inr (d2, bs))))"

text \<open>
  \<^verbatim>\<open>Sum\<close> pads a copy and appends the bytes to \<open>inp\<close>; it returns the bytes only.
\<close>

definition Sum :: "digest \<Rightarrow> byte list \<Rightarrow> byte list result" where
  "Sum d inp = and_then (checkSum (copy d)) (\<lambda>r. Some (Inr (inp @ snd r)))"

section \<open>\<^verbatim>\<open>RandomMatrix\<close>\<close>

text \<open>
  The entropy source is an \<^verbatim>\<open>io.Reader\<close>. What \<^verbatim>\<open>RandomMatrix\<close> sees of
  it is the outcome of each \<^verbatim>\<open>Read\<close> call in turn: the bytes the call delivers
  (at most as many as the buffer holds) and whether its error is non-nil. A source is
  the list of these outcomes; past its end every call delivers nothing and returns an
  error. \<^verbatim>\<open>Read\<close> yields the buffer after the call, the error flag and the
  source that is left.
\<close>

type_synonym Reader = "(byte list \<times> bool) list"

definition Read :: "Reader \<Rightarrow> byte list \<Rightarrow> byte list \<times> bool \<times> Reader" where
  "Read r w = (case r of [] \<Rightarrow> (w, True, []) | out # rest \<Rightarrow> (copy_slice w (fst out), snd out, rest))"

text \<open>
  The loop \<^verbatim>\<open>for j := range A[i]\<close>:
  \<^verbatim>\<open>_, err := rand.Read(w); if err != nil { panic(err) }; A[i][j] = Uint64(w)\<close>.
  The number of bytes read is dropped; the buffer \<open>w\<close> is the same for every call.
\<close>

fun RandomMatrix_cells :: "nat list \<Rightarrow> Reader \<Rightarrow> byte list \<Rightarrow> u64 list \<Rightarrow> panic + u64 list \<times> byte list \<times> Reader" where
  "RandomMatrix_cells [] r w row = Inr (row, w, r)"
| "RandomMatrix_cells (j # js) r w row =
     (case Read r w of
        (w', err, r') \<Rightarrow>
          if err then Inl ReadError else RandomMatrix_cells js r' w' (row[j := Uint64 w']))"

text \<open>
  The loop \<^verbatim>\<open>for i := range A\<close> with \<^verbatim>\<open>A[i] = make([]uint64, M)\<close>.
\<close>

fun RandomMatrix_rows :: "nat list \<Rightarrow> int \<Rightarrow> Reader \<Rightarrow> byte list \<Rightarrow> Matrix \<Rightarrow> panic + Matrix" where
  "RandomMatrix_rows [] M r w A = Inr A"
| "RandomMatrix_rows (i # is) M r w A =
     (if M < 0 then Inl MakeLen
      else case RandomMatrix_cells [0..<nat M] r w (replicate (nat M) 0) of
             Inl e \<Rightarrow> Inl e
           | Inr (row, w', r') \<Rightarrow> RandomMatrix_rows is M r' w' (A[i := row]))"

definition RandomMatrix :: "Reader \<Rightarrow> int \<Rightarrow> int \<Rightarrow> panic + Matrix" where
  "RandomMatrix rand N compressionFactor =
     (let M = compressionFactor * N * 64 in
      if N < 0 then Inl MakeLen
      else RandomMatrix_rows [0..<nat N] M rand (replicate 8 0) (replicate (nat N) []))"

section \<open>Specification of the row sums\<close>

text \<open>
  The contribution of message byte \<open>j\<close> of value \<open>v\<close> to a row sum: the columns
  \<open>8 * j + b\<close> whose bit \<open>b\<close>, counted from the most significant, is set in \<open>v\<close>.
\<close>

definition byte_sum :: "u64 list \<Rightarrow> nat \<Rightarrow> byte \<Rightarrow> u64" where
  "byte_sum row j v = (\<Sum>b<8. if bit v (7 - b) then row ! (8 * j + b) else 0)"

text \<open>
  The row sum in the words of the specification: the sum modulo \<open>2 ^ 64\<close> of
  \<open>A[i][8j+b]\<close> over every input byte \<open>j\<close> and every bit position \<open>b\<close> in
  \<open>0..8\<close>, most significant bit first, where bit \<open>b\<close> of byte \<open>j\<close> is set.
\<close>

definition spec_row_sum :: "u64 list \<Rightarrow> byte list \<Rightarrow> u64" where
  "spec_row_sum row msg =
     (\<Sum>j<length msg. \<Sum>b<8. if bit (msg ! j) (7 - b) then row ! (8 * j + b) else 0)"

text \<open>
  The invariant of the data model on one row of a table derived from a matrix row of
  \<open>M\<close> columns: \<open>M div 8\<close> cells of 256 words, the word at \<open>b\<close> of cell \<open>g\<close> the
  contribution of the byte value \<open>b\<close> at byte \<open>g\<close>.
\<close>

definition row_ok :: "nat \<Rightarrow> u64 list \<Rightarrow> u64 list list \<Rightarrow> bool" where
  "row_ok M row trow \<longleftrightarrow>
     length trow = M div 8 \<and>
     (\<forall>g<M div 8. length (trow ! g) = 256 \<and> (\<forall>b<256. trow ! g ! b = byte_sum row g (of_nat b)))"

section \<open>Proof devices for the digest\<close>

text \<open>
  A \<^verbatim>\<open>Compress\<close> call gets the caller's slice by value: it can write its words, it
  cannot change its length. A compressor of the model is well formed when the
  destination it returns has the length of the one it was given.
\<close>

definition wf_Compressor :: "Compressor \<Rightarrow> bool" where
  "wf_Compressor c \<longleftrightarrow> (\<forall>dst msg dst'. Compress c dst msg = Inr dst' \<longrightarrow> length dst' = length dst)"

text \<open>The bytes of a chaining value: every word by \<^verbatim>\<open>PutUint64\<close>, in order.\<close>

definition ser :: "u64 list \<Rightarrow> byte list" where
  "ser h = concat (map PutUint64 h)"

text \<open>
  What \<open>n\<close> rounds of the loop of \<^verbatim>\<open>blocks\<close> compute from the chaining value \<open>h\<close>
  and the first \<open>n\<close> blocks of \<open>B\<close> bytes of \<open>data\<close>: the last chaining value and the
  compression inputs in order, or the first panic.
\<close>

fun chain_n :: "Compressor \<Rightarrow> nat \<Rightarrow> u64 list \<Rightarrow> byte list \<Rightarrow> nat \<Rightarrow> panic + u64 list \<times> byte list list" where
  "chain_n c B h data 0 = Inr (h, [])"
| "chain_n c B h data (Suc n) =
     (case Compress c h (ser h @ take B data) of
        Inl eh \<Rightarrow> Inl (fst eh)
      | Inr h' \<Rightarrow>
          (case chain_n c B h' (drop B data) n of
             Inl e \<Rightarrow> Inl e
           | Inr r \<Rightarrow> Inr (fst r, (ser h @ take B data) # snd r)))"

text \<open>
  The part of the invariant of an instance that no call changes: the block size \<open>B\<close> is
  positive, \<^verbatim>\<open>d.size\<close> is 8 bytes per word of \<^verbatim>\<open>d.h\<close>, the compressor's
  input is \<^verbatim>\<open>d.size + d.blockSize\<close> bytes and the carry buffer has \<open>B\<close> bytes.
\<close>

definition static_ok :: "digest \<Rightarrow> nat \<Rightarrow> bool" where
  "static_ok d B \<longleftrightarrow>
     wf_Compressor (d_c d) \<and> d_blockSize d = int B \<and> 0 < B \<and>
     d_size d = 8 * int (length (d_h d)) \<and>
     InputLen (d_c d) = Inr (d_size d + d_blockSize d) \<and> length (d_x d) = B"

text \<open>
  The result of \<^verbatim>\<open>Write\<close> in closed form, for an instance that carries \<open>k < B\<close>
  bytes: the carried bytes and \<open>p\<close> are compressed block by block, what is left is
  carried.
\<close>

definition Write_result :: "digest \<Rightarrow> nat \<Rightarrow> nat \<Rightarrow> byte list \<Rightarrow> panic + digest" where
  "Write_result d B k p =
     (let all = take k (d_x d) @ p; n = length all div B; rest = drop (n * B) all in
      case chain_n (d_c d) B (d_h d) all n of
        Inl e \<Rightarrow> Inl e
      | Inr r \<Rightarrow>
          Inr (d\<lparr>d_len := d_len d + of_nat (length p), d_h := fst r,
                  d_calls := d_calls d @ snd r, d_nx := int (length rest),
                  d_x := rest @ drop (length rest)
                           (if 0 < k \<and> B \<le> length all then take B all else d_x d)\<rparr>))"

text \<open>The invariant of an instance between calls: fewer than \<open>B\<close> bytes are carried.\<close>

definition digest_ok :: "digest \<Rightarrow> bool" where
  "digest_ok d \<longleftrightarrow> (\<exists>B k. static_ok d B \<and> d_nx d = int k \<and> k < B)"

text \<open>A caller's sequence of \<^verbatim>\<open>Write\<close> and \<^verbatim>\<open>Reset\<close> calls on one instance.\<close>

datatype digest_op = Op_Write "byte list" | Op_Reset

fun run_ops :: "digest \<Rightarrow> digest_op list \<Rightarrow> digest result" where
  "run_ops d [] = Some (Inr d)"
| "run_ops d (Op_Write p # ops) = and_then (Write d p) (\<lambda>d1. run_ops d1 ops)"
| "run_ops d (Op_Reset # ops) = run_ops (Reset d) ops"

text \<open>The bytes an instance carries: the first \<^verbatim>\<open>d.nx\<close> bytes of \<^verbatim>\<open>d.x\<close>.\<close>

definition pending :: "digest \<Rightarrow> byte list" where
  "pending d = take (nat (d_nx d)) (d_x d)"

text \<open>
  What later calls can observe of an instance: every field, with the carry buffer cut
  to the carried bytes (the bytes beyond \<^verbatim>\<open>d.nx\<close> are overwritten before they are
  read) and without the record of compression calls.
\<close>

definition view :: "digest \<Rightarrow> digest" where
  "view d = d\<lparr>d_x := pending d, d_calls := []\<rparr>"

text \<open>A function applied to the value a call returns.\<close>

definition map_res :: "('a \<Rightarrow> 'b) \<Rightarrow> 'a result \<Rightarrow> 'b result" where
  "map_res f r = map_option (map_sum id f) r"

text \<open>\<^verbatim>\<open>Write\<close> on views: the result of \<open>Write_result\<close> as the view shows it.\<close>

definition Write_view :: "digest \<Rightarrow> nat \<Rightarrow> byte list \<Rightarrow> panic + digest" where
  "Write_view v B p =
     (let all = d_x v @ p; n = length all div B; rest = drop (n * B) all in
      case chain_n (d_c v) B (d_h v) all n of
        Inl e \<Rightarrow> Inl e
      | Inr r \<Rightarrow>
          Inr (v\<lparr>d_len := d_len v + of_nat (length p), d_h := fst r,
                  d_nx := int (length rest), d_x := rest\<rparr>))"

section \<open>The guards of both compressors\<close>

lemma Matrix_Compress_short:
  assumes "int (length dst) < int (length A) \<or> (\<exists>n. Matrix_InputLen A = Inr n \<and> int (length msg) < n)"
  shows "Matrix_Compress A dst msg = Inl (OutOfRange, dst)"
  using assms
  by (cases A) (auto simp: Matrix_Compress_def Matrix_InputLen_def Let_def)

lemma LookupTable_Compress_short:
  assumes "int (length dst) < int (length At) \<or> (\<exists>n. LookupTable_InputLen At = Inr n \<and> int (length msg) < n)"
  shows "LookupTable_Compress At dst msg = Inl (OutOfRange, dst)"
  using assms
  by (cases At) (auto simp: LookupTable_Compress_def LookupTable_InputLen_def Let_def)

section \<open>\<^verbatim>\<open>RandomMatrix\<close> on a source that delivers one byte per call\<close>

lemma fold_update_length: "length (fold (\<lambda>j r. r[j := c]) js row) = length row"
  by (induction js arbitrary: row) auto

lemma fold_update_nth:
  "k < length row \<Longrightarrow> fold (\<lambda>j r. r[j := c]) js row ! k = (if k \<in> set js then c else row ! k)"
  by (induction js arbitrary: row) (auto simp: nth_list_update)

lemma fold_update_all: "fold (\<lambda>j r. r[j := c]) [0..<n] (replicate n z) = replicate n c"
  by (rule nth_equalityI) (auto simp: fold_update_length fold_update_nth)

lemma RandomMatrix_cells_one_byte:
  "RandomMatrix_cells js (replicate (length js) ([b], False)) (b' # ws) row =
     Inr (fold (\<lambda>j r. r[j := Uint64 (b # ws)]) js row, (if js = [] then b' else b) # ws, [])"
  by (induction js arbitrary: b' row) (auto simp: Read_def copy_slice_def)

lemma Uint64_low: "Uint64 [b, 0, 0, 0, 0, 0, 0, 0] = ucast b"
  by (simp add: Uint64_def)

section \<open>The two compressors compute the row sums\<close>

lemma shl_msb_bit: "b < 8 \<Longrightarrow> shl_msb v b = bit v (7 - b)"
proof -
  assume b: "b < 8"
  have "(push_bit b v AND 0x80 > 0) = (push_bit b v AND 2 ^ 7 \<noteq> 0)"
    by (simp add: word_gt_0)
  also have "\<dots> = bit (push_bit b v) 7"
    by (simp only: and_exp_eq_0_iff_not_bit) simp
  also have "\<dots> = bit v (7 - b)"
    using b by (auto simp: bit_push_bit_iff bit_imp_possible_bit)
  finally show ?thesis by (simp add: shl_msb_def)
qed

lemma Matrix_bits_sum:
  "\<forall>b\<in>set bs. b < 8 \<and> 8 * j + b < length row \<Longrightarrow>
   Matrix_bits row j v bs x = Inr (x + (\<Sum>b\<leftarrow>bs. if bit v (7 - b) then row ! (8 * j + b) else 0))"
  by (induction bs arbitrary: x) (auto simp: shl_msb_bit add.assoc)

lemma Matrix_bits_byte_sum:
  "8 * j + 8 \<le> length row \<Longrightarrow> Matrix_bits row j v [0..<8] x = Inr (x + byte_sum row j v)"
proof -
  assume "8 * j + 8 \<le> length row"
  then have "\<forall>b\<in>set [0..<8]. b < 8 \<and> 8 * j + b < length row" by auto
  then have "Matrix_bits row j v [0..<8] x =
      Inr (x + (\<Sum>b\<leftarrow>[0..<8]. if bit v (7 - b) then row ! (8 * j + b) else 0))"
    by (rule Matrix_bits_sum)
  also have "(\<Sum>b\<leftarrow>[0..<8]. if bit v (7 - b) then row ! (8 * j + b) else 0) = byte_sum row j v"
    unfolding byte_sum_def by (simp only: sum_list_distinct_conv_sum_set distinct_upt set_upt atLeast0LessThan)
  finally show ?thesis .
qed

lemma sumBits_loop_sum:
  "\<forall>i\<in>set is. i < 8 \<and> i < length as \<Longrightarrow>
   sumBits_loop as v is x = Inr (x + (\<Sum>i\<leftarrow>is. if bit v (7 - i) then as ! i else 0))"
  by (induction "is" arbitrary: x) (auto simp: shl_msb_bit add.assoc)

lemma sumBits_byte_sum:
  "j + 8 \<le> length row \<Longrightarrow> 8 dvd j \<Longrightarrow> sumBits (take 8 (drop j row)) v = Inr (byte_sum row (j div 8) v)"
proof -
  assume j: "j + 8 \<le> length row" and d: "8 dvd j"
  let ?as = "take 8 (drop j row)"
  have "\<forall>i\<in>set [0..<8]. i < 8 \<and> i < length ?as" using j by auto
  then have "sumBits_loop ?as v [0..<8] 0 =
      Inr (0 + (\<Sum>i\<leftarrow>[0..<8]. if bit v (7 - i) then ?as ! i else 0))"
    by (rule sumBits_loop_sum)
  also have "(\<Sum>i\<leftarrow>[0..<8]. if bit v (7 - i) then ?as ! i else 0) = (\<Sum>i<8. if bit v (7 - i) then ?as ! i else 0)"
    by (simp only: sum_list_distinct_conv_sum_set distinct_upt set_upt atLeast0LessThan)
  also have "\<dots> = byte_sum row (j div 8) v"
    unfolding byte_sum_def using j d by (intro sum.cong) (auto simp: ac_simps)
  finally show ?thesis by (simp add: sumBits_def)
qed

lemma spec_row_sum_byte_sum: "spec_row_sum row msg = (\<Sum>j<length msg. byte_sum row j (msg ! j))"
  by (simp add: spec_row_sum_def byte_sum_def)

lemma Matrix_bytes_sum:
  "8 * (j + length vs) \<le> length row \<Longrightarrow>
   Matrix_bytes row j vs x = Inr (x + (\<Sum>k<length vs. byte_sum row (j + k) (vs ! k)))"
proof (induction vs arbitrary: j x)
  case Nil
  then show ?case by simp
next
  case (Cons v vs)
  have "8 * j + 8 \<le> length row" using Cons.prems by simp
  then have b: "Matrix_bits row j v [0..<8] x = Inr (x + byte_sum row j v)"
    by (rule Matrix_bits_byte_sum)
  have "8 * (Suc j + length vs) \<le> length row" using Cons.prems by simp
  then have r: "Matrix_bytes row (Suc j) vs (x + byte_sum row j v) =
      Inr (x + byte_sum row j v + (\<Sum>k<length vs. byte_sum row (Suc j + k) (vs ! k)))"
    by (rule Cons.IH)
  have "(\<Sum>k<Suc (length vs). byte_sum row (j + k) ((v # vs) ! k)) =
      byte_sum row (j + 0) ((v # vs) ! 0) + (\<Sum>k<length vs. byte_sum row (j + Suc k) ((v # vs) ! Suc k))"
    by (rule sum.lessThan_Suc_shift)
  then have s: "(\<Sum>k<length (v # vs). byte_sum row (j + k) ((v # vs) ! k)) =
      byte_sum row j v + (\<Sum>k<length vs. byte_sum row (Suc j + k) (vs ! k))"
    by simp
  show ?case
    unfolding s using b r by (simp del: upt_Suc add: add.assoc)
qed

lemma Matrix_bytes_spec:
  "8 * length msg \<le> length row \<Longrightarrow> Matrix_bytes row 0 msg 0 = Inr (spec_row_sum row msg)"
  using Matrix_bytes_sum [of 0 msg row 0] by (simp add: spec_row_sum_byte_sum)

lemma Matrix_rows_spec:
  "\<forall>row\<in>set rows. 8 * length msg \<le> length row \<Longrightarrow> i + length rows \<le> length dst \<Longrightarrow>
   Matrix_rows rows i msg dst =
     Inr (take i dst @ map (\<lambda>row. spec_row_sum row msg) rows @ drop (i + length rows) dst)"
proof (induction rows arbitrary: i dst)
  case Nil
  then show ?case by simp
next
  case (Cons row rows)
  have b: "Matrix_bytes row 0 msg 0 = Inr (spec_row_sum row msg)"
    using Cons.prems by (simp add: Matrix_bytes_spec)
  let ?dst = "dst[i := spec_row_sum row msg]"
  have "Matrix_rows rows (Suc i) msg ?dst =
      Inr (take (Suc i) ?dst @ map (\<lambda>row. spec_row_sum row msg) rows @ drop (Suc i + length rows) ?dst)"
    using Cons.prems by (intro Cons.IH) auto
  moreover have "take (Suc i) ?dst = take i dst @ [spec_row_sum row msg]"
    using Cons.prems by (simp add: take_Suc_conv_app_nth)
  moreover have "drop (Suc i + length rows) ?dst = drop (Suc i + length rows) dst"
    by simp
  ultimately show ?case
    using b Cons.prems by simp
qed

lemma Matrix_Compress_spec:
  assumes "A \<noteq> []" "\<forall>row\<in>set A. length row = M" "8 \<le> M" "length msg = M div 8"
    "length A \<le> length dst"
  shows "Matrix_Compress A dst msg =
     Inr (map (\<lambda>row. spec_row_sum row msg) A @ drop (length A) dst)"
proof -
  obtain row0 rows where A: "A = row0 # rows" using assms(1) by (cases A) auto
  have M: "length row0 = M" using assms(2) A by simp
  have k: "1 \<le> int M div 8" using assms(3) by linarith
  have m: "int (length msg) = int M div 8" using assms(4) by (simp add: zdiv_int)
  have "\<forall>row\<in>set A. 8 * length msg \<le> length row" using assms(2,4) by simp
  moreover have "0 + length A \<le> length dst" using assms(5) by simp
  ultimately have "Matrix_rows A 0 msg dst =
      Inr (take 0 dst @ map (\<lambda>row. spec_row_sum row msg) A @ drop (0 + length A) dst)"
    by (rule Matrix_rows_spec)
  moreover have "Matrix_Compress A dst msg = Matrix_rows A 0 msg dst"
    using A M k m assms(5) by (simp add: Matrix_Compress_def Let_def)
  ultimately show ?thesis by simp
qed

lemma LookupTable_cell_ok:
  assumes "j + 8 \<le> length row" "8 dvd j" "j div 8 < length Ati"
    "\<forall>b\<in>set bs. b < length (Ati ! (j div 8))"
  shows "\<exists>Ati'. LookupTable_cell row j bs Ati = Inr Ati' \<and> length Ati' = length Ati \<and>
     (\<forall>g. g \<noteq> j div 8 \<longrightarrow> Ati' ! g = Ati ! g) \<and>
     length (Ati' ! (j div 8)) = length (Ati ! (j div 8)) \<and>
     (\<forall>b<length (Ati ! (j div 8)). Ati' ! (j div 8) ! b =
        (if b \<in> set bs then byte_sum row (j div 8) (of_nat b) else Ati ! (j div 8) ! b))"
  using assms(3,4)
proof (induction bs arbitrary: Ati)
  case Nil
  then show ?case by simp
next
  case (Cons b bs)
  let ?g = "j div 8"
  let ?s = "byte_sum row ?g (of_nat b)"
  let ?Ati = "Ati[?g := (Ati ! ?g)[b := ?s]]"
  have sb: "sumBits (take 8 (drop j row)) (of_nat b) = Inr ?s"
    using assms(1,2) by (rule sumBits_byte_sum)
  have step: "LookupTable_cell row j (b # bs) Ati = LookupTable_cell row j bs ?Ati"
    using sb assms(1) Cons.prems by simp
  have "?g < length ?Ati" using Cons.prems by simp
  moreover have "\<forall>b\<in>set bs. b < length (?Ati ! ?g)" using Cons.prems by simp
  ultimately obtain Ati' where r: "LookupTable_cell row j bs ?Ati = Inr Ati'"
    "length Ati' = length ?Ati" "\<forall>g. g \<noteq> ?g \<longrightarrow> Ati' ! g = ?Ati ! g"
    "length (Ati' ! ?g) = length (?Ati ! ?g)"
    "\<forall>b<length (?Ati ! ?g). Ati' ! ?g ! b =
        (if b \<in> set bs then byte_sum row ?g (of_nat b) else ?Ati ! ?g ! b)"
    using Cons.IH [of ?Ati] by blast
  have "\<forall>c<length (Ati ! ?g). Ati' ! ?g ! c =
        (if c \<in> set (b # bs) then byte_sum row ?g (of_nat c) else Ati ! ?g ! c)"
    using r(5) Cons.prems by (auto simp: nth_list_update)
  then show ?case
    using step r(1-4) Cons.prems by simp
qed

lemma LookupTable_row_ok:
  "8 dvd j \<Longrightarrow> 8 dvd M \<Longrightarrow> M \<le> length row \<Longrightarrow> length Ati = M div 8 \<Longrightarrow>
   \<forall>g<M div 8. length (Ati ! g) = 256 \<Longrightarrow>
   \<exists>Ati'. LookupTable_row row M j Ati = Inr Ati' \<and> length Ati' = M div 8 \<and>
     (\<forall>g<M div 8. length (Ati' ! g) = 256 \<and>
        (if j div 8 \<le> g then \<forall>b<256. Ati' ! g ! b = byte_sum row g (of_nat b)
         else Ati' ! g = Ati ! g))"
proof (induction row M j Ati rule: LookupTable_row.induct)
  case (1 row M j Ati)
  show ?case
  proof (cases "j < M")
    case False
    then have "\<forall>g<M div 8. \<not> j div 8 \<le> g"
      using "1.prems"(1,2) by (auto elim!: dvdE)
    then show ?thesis
      using False "1.prems" by (subst LookupTable_row.simps) simp
  next
    case True
    let ?g = "j div 8"
    have j8: "j + 8 \<le> M" using True "1.prems"(1,2) by (auto elim!: dvdE)
    then have g: "?g < M div 8" using "1.prems"(1,2) by (auto elim!: dvdE)
    have "j + 8 \<le> length row" using j8 "1.prems"(3) by simp
    moreover have "?g < length Ati" using g "1.prems"(4) by simp
    moreover have "\<forall>b\<in>set [0..<256]. b < length (Ati ! ?g)" using g "1.prems"(5) by simp
    ultimately obtain Ati1 where c: "LookupTable_cell row j [0..<256] Ati = Inr Ati1"
      "length Ati1 = length Ati" "\<forall>g. g \<noteq> ?g \<longrightarrow> Ati1 ! g = Ati ! g"
      "length (Ati1 ! ?g) = length (Ati ! ?g)"
      "\<forall>b<length (Ati ! ?g). Ati1 ! ?g ! b =
          (if b \<in> set [0..<256] then byte_sum row ?g (of_nat b) else Ati ! ?g ! b)"
      using LookupTable_cell_ok [OF _ "1.prems"(1), of row Ati "[0..<256]"] by blast
    have len1: "\<forall>g<M div 8. length (Ati1 ! g) = 256"
      using c(3,4) "1.prems"(5) by metis
    obtain Ati' where r: "LookupTable_row row M (j + 8) Ati1 = Inr Ati'" "length Ati' = M div 8"
      "\<forall>g<M div 8. length (Ati' ! g) = 256 \<and>
        (if (j + 8) div 8 \<le> g then \<forall>b<256. Ati' ! g ! b = byte_sum row g (of_nat b)
         else Ati' ! g = Ati1 ! g)"
      using "1.IH" [OF True c(1)] "1.prems"(1,2,3,4) c(2) len1 by auto
    have "\<forall>g<M div 8. length (Ati' ! g) = 256 \<and>
        (if ?g \<le> g then \<forall>b<256. Ati' ! g ! b = byte_sum row g (of_nat b)
         else Ati' ! g = Ati ! g)"
    proof (intro allI impI)
      fix k assume k: "k < M div 8"
      have l: "length (Ati' ! k) = 256" using r(3) k by simp
      have e: "(j + 8) div 8 = Suc ?g" by simp
      consider "k < ?g" | "k = ?g" | "Suc ?g \<le> k" by linarith
      then show "length (Ati' ! k) = 256 \<and>
        (if ?g \<le> k then \<forall>b<256. Ati' ! k ! b = byte_sum row k (of_nat b)
         else Ati' ! k = Ati ! k)"
      proof cases
        case 1
        then have "Ati' ! k = Ati1 ! k" using r(3) k e by simp
        then show ?thesis using 1 l c(3) by simp
      next
        case 2
        then have "Ati' ! k = Ati1 ! k" using r(3) k e by simp
        moreover have "\<forall>b<256. Ati1 ! ?g ! b = byte_sum row ?g (of_nat b)"
          using c(5) g "1.prems"(5) by simp
        ultimately show ?thesis using 2 l by simp
      next
        case 3
        then show ?thesis using r(3) k e l by simp
      qed
    qed
    then show ?thesis
      using True c(1) r(1,2) by (subst LookupTable_row.simps) simp
  qed
qed

lemma LookupTable_rows_ok:
  "8 dvd M \<Longrightarrow> \<forall>row\<in>set rows. M \<le> length row \<Longrightarrow> i + length rows \<le> length At \<Longrightarrow>
   \<exists>At'. LookupTable_rows rows M i At = Inr At' \<and> length At' = length At \<and>
     (\<forall>k<length rows. row_ok M (rows ! k) (At' ! (i + k))) \<and> (\<forall>k<i. At' ! k = At ! k)"
proof (induction rows arbitrary: i At)
  case Nil
  then show ?case by simp
next
  case (Cons row rows)
  let ?z = "replicate (M div 8) (replicate 256 (0::u64))"
  have "8 dvd (0::nat)" by simp
  moreover have "M \<le> length row" using Cons.prems by simp
  moreover have "length ?z = M div 8" by simp
  moreover have "\<forall>g<M div 8. length (?z ! g) = 256" by simp
  ultimately obtain Ati where t: "LookupTable_row row M 0 ?z = Inr Ati" "length Ati = M div 8"
    "\<forall>g<M div 8. length (Ati ! g) = 256 \<and>
        (if 0 div 8 \<le> g then \<forall>b<256. Ati ! g ! b = byte_sum row g (of_nat b)
         else Ati ! g = ?z ! g)"
    using LookupTable_row_ok [OF _ Cons.prems(1), of 0 row ?z] by blast
  have ok: "row_ok M row Ati" using t(2,3) by (simp add: row_ok_def)
  obtain At' where r: "LookupTable_rows rows M (Suc i) (At[i := Ati]) = Inr At'"
    "length At' = length (At[i := Ati])"
    "\<forall>k<length rows. row_ok M (rows ! k) (At' ! (Suc i + k))"
    "\<forall>k<Suc i. At' ! k = At[i := Ati] ! k"
    using Cons.IH [of "Suc i" "At[i := Ati]"] Cons.prems by auto
  have i: "i < length At" using Cons.prems by simp
  have "At' ! i = Ati" using r(4) i by simp
  then have "\<forall>k<length (row # rows). row_ok M ((row # rows) ! k) (At' ! (i + k))"
    using ok r(3) by (auto simp: nth_Cons split: nat.splits)
  moreover have "\<forall>k<i. At' ! k = At ! k" using r(4) by simp
  ultimately show ?case
    using t(1) r(1,2) i by simp
qed

lemma LookupTable_ok:
  assumes "A \<noteq> []" "\<forall>row\<in>set A. length row = M" "8 dvd M"
  shows "\<exists>At. LookupTable A = Inr At \<and> length At = length A \<and>
     (\<forall>k<length A. row_ok M (A ! k) (At ! k))"
proof -
  obtain row0 rows where A: "A = row0 # rows" using assms(1) by (cases A) auto
  have M: "length row0 = M" using assms(2) A by simp
  have "\<forall>row\<in>set A. M \<le> length row" using assms(2) by simp
  moreover have "0 + length A \<le> length (replicate (length A) ([] :: u64 list list))" by simp
  ultimately obtain At' where "LookupTable_rows A M 0 (replicate (length A) []) = Inr At'"
    "length At' = length (replicate (length A) ([] :: u64 list list))"
    "\<forall>k<length A. row_ok M (A ! k) (At' ! (0 + k))"
    using LookupTable_rows_ok [OF assms(3), of A 0 "replicate (length A) []"] by blast
  then show ?thesis
    using A M by (simp add: LookupTable_def)
qed

lemma LookupTable_cells_sum:
  "\<forall>k<length cells. length (cells ! k) = 256 \<and>
      (\<forall>b<256. cells ! k ! b = byte_sum row (j + k) (of_nat b)) \<Longrightarrow>
   j + length cells \<le> length msg \<Longrightarrow>
   LookupTable_cells cells j msg x =
     Inr (x + (\<Sum>k<length cells. byte_sum row (j + k) (msg ! (j + k))))"
proof (induction cells arbitrary: j x)
  case Nil
  then show ?case by simp
next
  case (Cons cell cells)
  have c: "length cell = 256" "\<forall>b<256. cell ! b = byte_sum row j (of_nat b)"
    using Cons.prems(1) by force+
  have "unat (msg ! j) < 2 ^ LENGTH(8)" by (rule unsigned_less)
  then have u: "unat (msg ! j) < 256" by simp
  then have v: "cell ! unat (msg ! j) = byte_sum row j (msg ! j)"
    using c(2) by simp
  have "\<forall>k<length cells. length (cells ! k) = 256 \<and>
      (\<forall>b<256. cells ! k ! b = byte_sum row (Suc j + k) (of_nat b))"
    using Cons.prems(1) by force
  moreover have "Suc j + length cells \<le> length msg" using Cons.prems(2) by simp
  ultimately have r: "LookupTable_cells cells (Suc j) msg (x + byte_sum row j (msg ! j)) =
     Inr (x + byte_sum row j (msg ! j) +
       (\<Sum>k<length cells. byte_sum row (Suc j + k) (msg ! (Suc j + k))))"
    by (rule Cons.IH)
  have "(\<Sum>k<Suc (length cells). byte_sum row (j + k) (msg ! (j + k))) =
      byte_sum row (j + 0) (msg ! (j + 0)) +
      (\<Sum>k<length cells. byte_sum row (j + Suc k) (msg ! (j + Suc k)))"
    by (rule sum.lessThan_Suc_shift)
  then have s: "(\<Sum>k<length (cell # cells). byte_sum row (j + k) (msg ! (j + k))) =
      byte_sum row j (msg ! j) +
      (\<Sum>k<length cells. byte_sum row (Suc j + k) (msg ! (Suc j + k)))"
    by simp
  show ?case
    unfolding s using r c(1) u v Cons.prems(2) by (simp add: add.assoc)
qed

lemma LookupTable_cells_spec:
  assumes "row_ok M row trow" "length msg = M div 8"
  shows "LookupTable_cells trow 0 msg 0 = Inr (spec_row_sum row msg)"
proof -
  have "\<forall>k<length trow. length (trow ! k) = 256 \<and>
      (\<forall>b<256. trow ! k ! b = byte_sum row (0 + k) (of_nat b))"
    using assms(1) by (simp add: row_ok_def)
  moreover have "0 + length trow \<le> length msg"
    using assms by (simp add: row_ok_def)
  ultimately have "LookupTable_cells trow 0 msg 0 =
     Inr (0 + (\<Sum>k<length trow. byte_sum row (0 + k) (msg ! (0 + k))))"
    by (rule LookupTable_cells_sum)
  moreover have "length trow = length msg" using assms by (simp add: row_ok_def)
  ultimately show ?thesis by (simp add: spec_row_sum_byte_sum)
qed

lemma compress_rows_eq:
  "length At = length A \<Longrightarrow> \<forall>k<length A. row_ok M (A ! k) (At ! k) \<Longrightarrow>
   \<forall>row\<in>set A. length row = M \<Longrightarrow> 8 dvd M \<Longrightarrow> length msg = M div 8 \<Longrightarrow>
   LookupTable_compress_rows At i msg dst = Matrix_rows A i msg dst"
proof (induction A arbitrary: At i dst)
  case Nil
  then show ?case by simp
next
  case (Cons row rows)
  obtain trow trows where At: "At = trow # trows"
    using Cons.prems(1) by (cases At) auto
  have ok: "row_ok M row trow" using Cons.prems(2) At by auto
  have t: "LookupTable_cells trow 0 msg 0 = Inr (spec_row_sum row msg)"
    using ok Cons.prems(5) by (rule LookupTable_cells_spec)
  have "8 * length msg \<le> length row" using Cons.prems(3,4,5) by simp
  then have m: "Matrix_bytes row 0 msg 0 = Inr (spec_row_sum row msg)"
    by (rule Matrix_bytes_spec)
  have "\<forall>k<length rows. row_ok M (rows ! k) (trows ! k)"
    using Cons.prems(2) At by auto
  then have "LookupTable_compress_rows trows (Suc i) msg (dst[i := spec_row_sum row msg]) =
      Matrix_rows rows (Suc i) msg (dst[i := spec_row_sum row msg])"
    using Cons.prems At by (intro Cons.IH) auto
  then show ?case
    using At t m by simp
qed

lemma LookupTable_Compress_eq:
  assumes "A \<noteq> []" "\<forall>row\<in>set A. length row = M" "8 dvd M" "length msg = M div 8"
  shows "\<exists>At. LookupTable A = Inr At \<and> LookupTable_Compress At dst msg = Matrix_Compress A dst msg"
proof -
  obtain At where At: "LookupTable A = Inr At" "length At = length A"
    "\<forall>k<length A. row_ok M (A ! k) (At ! k)"
    using LookupTable_ok [OF assms(1-3)] by blast
  obtain row0 rows where A: "A = row0 # rows" using assms(1) by (cases A) auto
  obtain trow0 trows where T: "At = trow0 # trows" using At(2) A by (cases At) auto
  have "row_ok M row0 trow0" using At(3) A T by auto
  then have l: "int (length trow0) = int (length row0) div 8"
    using assms(2) A by (simp add: row_ok_def zdiv_int)
  have "LookupTable_compress_rows At 0 msg dst = Matrix_rows A 0 msg dst"
    using At(2,3) assms(2,3,4) by (rule compress_rows_eq)
  then have "LookupTable_Compress At dst msg = Matrix_Compress A dst msg"
    using l At(2) unfolding LookupTable_Compress_def Matrix_Compress_def A T by simp
  then show ?thesis using At(1) by blast
qed

section \<open>\<^verbatim>\<open>blocks\<close> and \<^verbatim>\<open>Write\<close> in closed form\<close>

lemma length_PutUint64: "length (PutUint64 w) = 8"
  by (simp add: PutUint64_def)

lemma length_ser: "length (ser h) = 8 * length h"
  by (induction h) (simp_all add: ser_def length_PutUint64)

lemma put_words_ser:
  "8 * (j + length ws) \<le> length buf \<Longrightarrow>
   put_words ws j buf = Inr (take (8 * j) buf @ ser ws @ drop (8 * (j + length ws)) buf)"
proof (induction ws arbitrary: j buf)
  case Nil
  then show ?case by (simp add: ser_def)
next
  case (Cons w ws)
  let ?buf = "take (8 * j) buf @ PutUint64 w @ drop (8 * j + 8) buf"
  have l: "length ?buf = length buf" using Cons.prems by (simp add: length_PutUint64)
  have t: "take (8 * Suc j) ?buf = take (8 * j) buf @ PutUint64 w"
    using Cons.prems by (simp add: length_PutUint64)
  have d: "drop (8 * (Suc j + length ws)) ?buf = drop (8 * (j + length (w # ws))) buf"
    using Cons.prems by (simp add: length_PutUint64 algebra_simps)
  have "put_words ws (Suc j) ?buf =
      Inr (take (8 * Suc j) ?buf @ ser ws @ drop (8 * (Suc j + length ws)) ?buf)"
    using Cons.prems l by (intro Cons.IH) simp
  then show ?case
    using Cons.prems unfolding t d by (simp add: ser_def)
qed

lemma copy_slice_same: "length dst = length src \<Longrightarrow> copy_slice dst src = src"
  by (simp add: copy_slice_def)

lemma blocks_loop_chain:
  assumes "wf_Compressor (d_c d)" "d_blockSize d = int B" "0 < B"
    "d_size d = 8 * int (length (d_h d))" "length msg = 8 * length (d_h d) + B"
    "(length data - i) div B = n"
  shows "blocks_loop d data msg (int i) =
     Some (case chain_n (d_c d) B (d_h d) (drop i data) n of
             Inl e \<Rightarrow> Inl e
           | Inr r \<Rightarrow> Inr (d\<lparr>d_h := fst r, d_calls := d_calls d @ snd r\<rparr>))"
  using assms
proof (induction n arbitrary: d msg i)
  case 0
  then have "length data - i < B" by (simp add: div_eq_0_iff)
  then have "\<not> int i \<le> int (length data) - d_blockSize d" using 0(2) by linarith
  then show ?case by (subst blocks_loop.simps) simp
next
  case (Suc n)
  let ?h = "d_h d"
  let ?S = "8 * length ?h"
  have ge: "B \<le> length data - i"
    using Suc.prems(3,6) by (metis div_less not_less Zero_not_Suc)
  then have c: "int i \<le> int (length data) - d_blockSize d" using Suc.prems(2,3) by linarith
  have pw: "put_words ?h 0 msg = Inr (ser ?h @ drop ?S msg)"
    using put_words_ser [of 0 ?h msg] Suc.prems(5) by simp
  let ?msg1 = "ser ?h @ drop ?S msg"
  have l1: "length ?msg1 = ?S + B" using Suc.prems(5) by (simp add: length_ser)
  let ?blk = "take B (drop i data)"
  have lb: "length ?blk = B" using ge by simp
  let ?msg2 = "take (nat (d_size d)) ?msg1 @
      copy_slice (take (nat (d_blockSize d)) (drop (nat (d_size d)) ?msg1))
        (take (nat (d_blockSize d)) (drop (nat (int i)) data)) @
      drop (nat (d_size d + d_blockSize d)) ?msg1"
  have nS: "nat (d_size d) = ?S" using Suc.prems(4) by simp
  have nB: "nat (d_blockSize d) = B" using Suc.prems(2) by simp
  have nSB: "nat (d_size d + d_blockSize d) = ?S + B" using Suc.prems(2,4) by simp
  have "copy_slice (take B (drop ?S ?msg1)) ?blk = ?blk"
    using l1 lb by (intro copy_slice_same) (simp add: length_ser)
  then have m2: "?msg2 = ser ?h @ ?blk"
    unfolding nS nB nSB using l1 by (simp add: length_ser)
  have guards: "0 \<le> d_size d \<and> 0 \<le> d_blockSize d \<and>
      d_size d + d_blockSize d \<le> int (length ?msg1)"
    using Suc.prems(2,4) l1 by simp
  have guards2: "0 \<le> int i \<and> int i + d_blockSize d \<le> int (length data)"
    using c by simp
  show ?case
  proof (cases "Compress (d_c d) ?h (ser ?h @ ?blk)")
    case (Inl eh)
    then show ?thesis
      using c pw guards guards2 m2
      by (subst blocks_loop.simps) (simp add: Let_def del: length_append)
  next
    case (Inr h')
    let ?d = "d\<lparr>d_h := h', d_calls := d_calls d @ [ser ?h @ ?blk]\<rparr>"
    have lh: "length h' = length ?h" using Inr Suc.prems(1) by (auto simp: wf_Compressor_def)
    have n: "(length data - (i + B)) div B = n"
      using Suc.prems(3,6) ge by (metis Suc_eq_plus1 add_diff_cancel_right' diff_diff_left div_add_self2 le_add_diff_inverse2 less_numeral_extra(3) Suc_inject)
    have "blocks_loop ?d data (ser ?h @ ?blk) (int (i + B)) =
      Some (case chain_n (d_c ?d) B (d_h ?d) (drop (i + B) data) n of
             Inl e \<Rightarrow> Inl e
           | Inr r \<Rightarrow> Inr (?d\<lparr>d_h := fst r, d_calls := d_calls ?d @ snd r\<rparr>))"
      using Suc.prems(1,2,3,4) lh lb n by (intro Suc.IH) (simp_all add: length_ser)
    moreover have "drop B (drop i data) = drop (i + B) data" by (simp add: add.commute)
    ultimately show ?thesis
      using c pw guards guards2 m2 Inr Suc.prems(2)
      by (subst blocks_loop.simps) (simp add: Let_def split: sum.splits del: length_append)
  qed
qed

lemma and_then_simps [simp]:
  "and_then None f = None"
  "and_then (Some (Inl e)) f = Some (Inl e)"
  "and_then (Some (Inr v)) f = f v"
  by (simp_all add: and_then_def)

lemma chain_n_take:
  "n * B \<le> m \<Longrightarrow> chain_n c B h (take m data) n = chain_n c B h data n"
proof (induction n arbitrary: h data m)
  case 0
  then show ?case by simp
next
  case (Suc n)
  have "B \<le> m" using Suc.prems by simp
  then have t: "take B (take m data) = take B data" by (simp add: min_def)
  have d: "drop B (take m data) = take (m - B) (drop B data)" by (simp add: drop_take)
  have "n * B \<le> m - B" using Suc.prems by simp
  then have IH: "\<And>h. chain_n c B h (take (m - B) (drop B data)) n = chain_n c B h (drop B data) n"
    by (rule Suc.IH)
  show ?case using \<open>B \<le> m\<close> by (simp add: drop_take IH min_absorb1 split: sum.splits)
qed

lemma chain_n_length:
  "wf_Compressor c \<Longrightarrow> chain_n c B h data n = Inr r \<Longrightarrow> length (fst r) = length h"
proof (induction n arbitrary: h data r)
  case 0
  then show ?case by auto
next
  case (Suc n)
  obtain h' where h': "Compress c h (ser h @ take B data) = Inr h'"
    using Suc.prems(2) by (cases "Compress c h (ser h @ take B data)") auto
  obtain r' where r': "chain_n c B h' (drop B data) n = Inr r'"
    using Suc.prems(2) h' by (cases "chain_n c B h' (drop B data) n") auto
  have "fst r = fst r'" using Suc.prems(2) h' r' by auto
  moreover have "length (fst r') = length h'" using Suc.prems(1) r' by (rule Suc.IH)
  moreover have "length h' = length h" using Suc.prems(1) h' by (auto simp: wf_Compressor_def)
  ultimately show ?case by simp
qed

lemma chain_n_add:
  "chain_n c B h data (m + n) =
     (case chain_n c B h data m of
        Inl e \<Rightarrow> Inl e
      | Inr r \<Rightarrow>
          (case chain_n c B (fst r) (drop (m * B) data) n of
             Inl e \<Rightarrow> Inl e
           | Inr r2 \<Rightarrow> Inr (fst r2, snd r @ snd r2)))"
proof (induction m arbitrary: h data)
  case 0
  then show ?case by (simp split: sum.splits)
next
  case (Suc m)
  have "\<And>h'. drop (m * B) (drop B data) = drop (Suc m * B) data"
    by (simp add: add.commute)
  then show ?case
    by (simp add: Suc.IH split: sum.splits)
qed

lemma blocks_chain:
  assumes "static_ok d B"
  shows "blocks d data =
     Some (case chain_n (d_c d) B (d_h d) data (length data div B) of
             Inl e \<Rightarrow> Inl e
           | Inr r \<Rightarrow> Inr (d\<lparr>d_h := fst r, d_calls := d_calls d @ snd r\<rparr>))"
proof -
  let ?msg = "replicate (nat (d_size d + d_blockSize d)) (0::byte)"
  have l: "length ?msg = 8 * length (d_h d) + B"
    using assms by (simp add: static_ok_def)
  have "blocks_loop d data ?msg (int 0) =
     Some (case chain_n (d_c d) B (d_h d) (drop 0 data) (length data div B) of
             Inl e \<Rightarrow> Inl e
           | Inr r \<Rightarrow> Inr (d\<lparr>d_h := fst r, d_calls := d_calls d @ snd r\<rparr>))"
    using assms l by (intro blocks_loop_chain) (simp_all add: static_ok_def)
  then show ?thesis
    using assms by (simp add: blocks_def static_ok_def)
qed

lemma go_div_nat: "go_div (int a) (int b) = int (a div b)"
  by (cases "a = 0"; cases "b = 0") (simp_all add: go_div_def zdiv_int)

lemma Write_full_chain:
  assumes "static_ok d B"
  shows "Write_full (d, p) =
     Some (case chain_n (d_c d) B (d_h d) p (length p div B) of
             Inl e \<Rightarrow> Inl e
           | Inr r \<Rightarrow> Inr (d\<lparr>d_h := fst r, d_calls := d_calls d @ snd r\<rparr>,
                          drop (length p div B * B) p))"
proof (cases "B \<le> length p")
  case False
  then have "length p div B = 0" by simp
  then show ?thesis
    using False assms by (simp add: Write_full_def static_ok_def)
next
  case True
  let ?n = "length p div B"
  have B: "d_blockSize d = int B" "0 < B" using assms by (simp_all add: static_ok_def)
  have n: "go_div (int (length p)) (int B) * int B = int (?n * B)"
    by (simp add: go_div_nat)
  have le: "?n * B \<le> length p" by simp
  have nl: "(length p < ?n * B) = False" by (simp add: not_less)
  have "length (take (?n * B) p) div B = ?n" using le B(2) by (simp add: min_def)
  then have "blocks d (take (?n * B) p) =
     Some (case chain_n (d_c d) B (d_h d) (take (?n * B) p) ?n of
             Inl e \<Rightarrow> Inl e
           | Inr r \<Rightarrow> Inr (d\<lparr>d_h := fst r, d_calls := d_calls d @ snd r\<rparr>))"
    using blocks_chain [OF assms, of "take (?n * B) p"] by simp
  then have b: "blocks d (take (?n * B) p) =
     Some (case chain_n (d_c d) B (d_h d) p ?n of
             Inl e \<Rightarrow> Inl e
           | Inr r \<Rightarrow> Inr (d\<lparr>d_h := fst r, d_calls := d_calls d @ snd r\<rparr>))"
    by (simp add: chain_n_take)
  have "Write_full (d, p) =
      and_then (blocks d (take (?n * B) p)) (\<lambda>d1. Some (Inr (d1, drop (?n * B) p)))"
    using True B by (simp add: Write_full_def Let_def n nl del: of_nat_mult)
  then show ?thesis
    unfolding b by (simp split: sum.splits)
qed

lemma static_ok_update [simp]:
  "static_ok (d\<lparr>d_len := l\<rparr>) B = static_ok d B"
  "static_ok (d\<lparr>d_nx := n\<rparr>) B = static_ok d B"
  "static_ok (d\<lparr>d_calls := cs\<rparr>) B = static_ok d B"
  "length x' = length (d_x d) \<Longrightarrow> static_ok (d\<lparr>d_x := x'\<rparr>) B = static_ok d B"
  "length h' = length (d_h d) \<Longrightarrow> static_ok (d\<lparr>d_h := h'\<rparr>) B = static_ok d B"
  by (simp_all add: static_ok_def)

lemma Write_tail_exact:
  assumes "length rest < length (d_x d)" "d_nx d = 0 \<or> rest \<noteq> []"
  shows "Write_tail (d, rest) =
     Some (Inr (d\<lparr>d_nx := int (length rest), d_x := rest @ drop (length rest) (d_x d)\<rparr>))"
proof (cases "rest = []")
  case True
  then have "d\<lparr>d_nx := int (length rest), d_x := rest @ drop (length rest) (d_x d)\<rparr> = d"
    using assms(2) by (intro digest.equality) simp_all
  then show ?thesis using True by (simp add: Write_tail_def)
next
  case False
  then show ?thesis
    using assms(1) by (simp add: Write_tail_def copy_slice_def min_def)
qed

lemma Write_carry_partial:
  assumes "static_ok d B" "d_nx d = int k" "0 < k" "k + length p < B"
  shows "Write_carry (d, p) =
     Some (Inr (d\<lparr>d_x := take k (d_x d) @ p @ drop (k + length p) (d_x d),
                   d_nx := int (k + length p)\<rparr>, []))"
proof -
  have x: "length (d_x d) = B" "d_blockSize d = int B" using assms(1) by (simp_all add: static_ok_def)
  have n: "min (length (d_x d) - k) (length p) = length p" using assms(4) x by simp
  have c: "copy_slice (drop k (d_x d)) p = p @ drop (k + length p) (d_x d)"
    using assms(4) x by (simp add: copy_slice_def add.commute)
  show ?thesis
    using assms(2,3,4) x n c by (simp add: Write_carry_def Let_def)
qed

lemma Write_carry_fill:
  assumes "static_ok d B" "d_nx d = int k" "0 < k" "k < B" "B \<le> k + length p"
  shows "Write_carry (d, p) =
     Some (case chain_n (d_c d) B (d_h d) (take k (d_x d) @ p) 1 of
             Inl e \<Rightarrow> Inl e
           | Inr r \<Rightarrow>
               Inr (d\<lparr>d_x := take B (take k (d_x d) @ p), d_nx := 0,
                       d_h := fst r, d_calls := d_calls d @ snd r\<rparr>, drop (B - k) p))"
proof -
  define blk where "blk = take B (take k (d_x d) @ p)"
  define r1 where "r1 = chain_n (d_c d) B (d_h d) (take k (d_x d) @ p) 1"
  have x: "length (d_x d) = B" "d_blockSize d = int B" using assms(1) by (simp_all add: static_ok_def)
  have n: "min (B - k) (length p) = B - k" using assms(4,5) by simp
  have kB: "int k + int (B - k) = int B" using assms(4) by simp
  have c: "copy_slice (drop k (d_x d)) p = take (B - k) p"
    using assms(4,5) x by (simp add: copy_slice_def)
  have t: "take k (d_x d) @ take (B - k) p = blk"
    using assms(4) x by (simp add: blk_def)
  have lb: "length blk = B" using assms(4,5) x by (simp add: blk_def)
  let ?d1 = "d\<lparr>d_x := blk, d_nx := int B\<rparr>"
  have ok1: "static_ok ?d1 B" using assms(1) x lb by simp
  have "chain_n (d_c d) B (d_h d) blk 1 = r1"
    unfolding blk_def r1_def by (rule chain_n_take) simp
  moreover have "length blk div B = 1" using lb assms(4) by simp
  ultimately have b: "blocks ?d1 blk =
     Some (case r1 of
             Inl e \<Rightarrow> Inl e
           | Inr r \<Rightarrow> Inr (?d1\<lparr>d_h := fst r, d_calls := d_calls d @ snd r\<rparr>))"
    using blocks_chain [OF ok1, of blk] by (simp del: chain_n.simps cong: sum.case_cong)
  have "Write_carry (d, p) =
      and_then (and_then (blocks ?d1 blk) (\<lambda>d2. Some (Inr (d2\<lparr>d_nx := 0\<rparr>))))
        (\<lambda>d3. Some (Inr (d3, drop (B - k) p)))"
    using assms(2,3,4) x(2) lb
    by (simp add: Write_carry_def Let_def x(1) n kB c t)
  then have "Write_carry (d, p) =
     Some (case r1 of
             Inl e \<Rightarrow> Inl e
           | Inr r \<Rightarrow>
               Inr (d\<lparr>d_x := blk, d_nx := 0,
                       d_h := fst r, d_calls := d_calls d @ snd r\<rparr>, drop (B - k) p))"
    unfolding b by (simp split: sum.splits)
  then show ?thesis unfolding blk_def r1_def .
qed

lemma Write_exact_empty_carry:
  assumes "static_ok d B" "d_nx d = 0"
  shows "Write d p = Some (Write_result d B 0 p)"
proof -
  define d0 where "d0 = d\<lparr>d_len := d_len d + of_nat (length p)\<rparr>"
  define n where "n = length p div B"
  define rest where "rest = drop (n * B) p"
  define rc where "rc = chain_n (d_c d) B (d_h d) p n"
  have B: "0 < B" "length (d_x d) = B" using assms(1) by (simp_all add: static_ok_def)
  have ok0: "static_ok d0 B" using assms(1) by (simp add: d0_def)
  have f0: "d_c d0 = d_c d" "d_h d0 = d_h d" "d_nx d0 = 0" "d_x d0 = d_x d" "d_calls d0 = d_calls d"
    using assms(2) by (simp_all add: d0_def)
  have lr: "length rest < B"
    using B(1) by (simp add: rest_def n_def) (metis mod_less_divisor minus_mult_div_eq_mod mult.commute)
  have carry: "Write_carry (d0, p) = Some (Inr (d0, p))"
    using f0(3) by (simp add: Write_carry_def)
  have full: "Write_full (d0, p) =
      Some (case rc of Inl e \<Rightarrow> Inl e
            | Inr r \<Rightarrow> Inr (d0\<lparr>d_h := fst r, d_calls := d_calls d @ snd r\<rparr>, rest))"
    using Write_full_chain [OF ok0, of p] by (simp add: f0 rc_def n_def rest_def cong: sum.case_cong)
  have w: "Write d p = and_then (Write_full (d0, p)) Write_tail"
    using carry by (simp add: Write_def d0_def)
  have res: "Write_result d B 0 p =
      (case rc of Inl e \<Rightarrow> Inl e
       | Inr r \<Rightarrow> Inr (d0\<lparr>d_h := fst r, d_calls := d_calls d @ snd r,
                          d_nx := int (length rest), d_x := rest @ drop (length rest) (d_x d)\<rparr>))"
    by (simp add: Write_result_def Let_def rc_def n_def rest_def d0_def cong: sum.case_cong)
  show ?thesis
  proof (cases rc)
    case (Inl e)
    then show ?thesis using w full res by simp
  next
    case (Inr r)
    let ?d1 = "d0\<lparr>d_h := fst r, d_calls := d_calls d @ snd r\<rparr>"
    have "Write_tail (?d1, rest) =
        Some (Inr (?d1\<lparr>d_nx := int (length rest), d_x := rest @ drop (length rest) (d_x ?d1)\<rparr>))"
      using lr B(2) f0 by (intro Write_tail_exact) simp_all
    then show ?thesis using w full res Inr f0 by simp
  qed
qed

lemma Write_exact_partial:
  assumes "static_ok d B" "d_nx d = int k" "0 < k" "k + length p < B"
  shows "Write d p = Some (Write_result d B k p)"
proof -
  define d0 where "d0 = d\<lparr>d_len := d_len d + of_nat (length p)\<rparr>"
  define all where "all = take k (d_x d) @ p"
  have B: "0 < B" "length (d_x d) = B" using assms(1) by (simp_all add: static_ok_def)
  have ok0: "static_ok d0 B" using assms(1) by (simp add: d0_def)
  have f0: "d_c d0 = d_c d" "d_h d0 = d_h d" "d_nx d0 = int k" "d_x d0 = d_x d"
    "d_calls d0 = d_calls d"
    using assms(2) by (simp_all add: d0_def)
  have la: "length all = k + length p" using assms(4) B(2) by (simp add: all_def)
  then have n0: "length all div B = 0" using assms(4) by simp
  define d1 where "d1 = d0\<lparr>d_x := all @ drop (k + length p) (d_x d), d_nx := int (k + length p)\<rparr>"
  have carry: "Write_carry (d0, p) = Some (Inr (d1, []))"
    using Write_carry_partial [OF ok0 f0(3) assms(3,4)] by (simp add: d1_def f0 all_def)
  have ok1: "static_ok d1 B" using ok0 la B(2) assms(4) by (simp add: d1_def f0)
  have "Write_full (d1, []) = Some (Inr (d1\<lparr>d_h := d_h d1, d_calls := d_calls d1 @ []\<rparr>, []))"
    using Write_full_chain [OF ok1, of "[]"] by simp
  then have full: "Write_full (d1, []) = Some (Inr (d1, []))" by simp
  have tail: "Write_tail (d1, []) = Some (Inr d1)" by (simp add: Write_tail_def)
  have w: "Write d p = Some (Inr d1)"
    using carry full tail by (simp add: Write_def d0_def [symmetric])
  have "Write_result d B k p = Inr d1"
    using n0 la assms(4)
    by (simp add: Write_result_def Let_def all_def [symmetric] d1_def d0_def)
  then show ?thesis using w by simp
qed

lemma Write_exact_fill:
  assumes "static_ok d B" "d_nx d = int k" "0 < k" "k < B" "B \<le> k + length p"
  shows "Write d p = Some (Write_result d B k p)"
proof -
  define d0 where "d0 = d\<lparr>d_len := d_len d + of_nat (length p)\<rparr>"
  define all where "all = take k (d_x d) @ p"
  define p' where "p' = drop (B - k) p"
  define n' where "n' = length p' div B"
  define rest where "rest = drop (n' * B) p'"
  define r1 where "r1 = chain_n (d_c d) B (d_h d) all 1"
  have B: "0 < B" "length (d_x d) = B" "wf_Compressor (d_c d)"
    using assms(1) by (simp_all add: static_ok_def)
  have ok0: "static_ok d0 B" using assms(1) by (simp add: d0_def)
  have f0: "d_c d0 = d_c d" "d_h d0 = d_h d" "d_nx d0 = int k" "d_x d0 = d_x d"
    "d_calls d0 = d_calls d"
    using assms(2) by (simp_all add: d0_def)
  have la: "length all = k + length p" using assms(4) B(2) by (simp add: all_def)
  have dp: "drop B all = p'" using assms(4) B(2) by (simp add: all_def p'_def)
  have lp: "length all = B + length p'" using la assms(4,5) by (simp add: p'_def)
  have cnd: "0 < k \<and> B \<le> length all" using assms(3,5) la by simp
  have n: "length all div B = Suc n'" using lp B(1) by (simp add: n'_def div_add_self1)
  have "drop (Suc n' * B) all = drop (n' * B) (drop B all)"
    by (simp add: add.commute)
  then have dr': "drop (Suc n' * B) all = rest"
    unfolding dp rest_def .
  then have dr: "drop (B + n' * B) all = rest" by simp
  have le: "B + n' * B \<le> length all" unfolding lp n'_def by simp
  have lr2: "length all - (B + n' * B) = length rest" unfolding dr [symmetric] by simp
  have li: "int (length all) - (1 + int n') * int B = int (length rest)"
    unfolding lr2 [symmetric] using le by (simp add: of_nat_diff algebra_simps)
  have lr: "length rest < B"
    using B(1) by (simp add: rest_def n'_def) (metis mod_less_divisor minus_mult_div_eq_mod mult.commute)
  have ch: "chain_n (d_c d) B (d_h d) all (Suc n') =
     (case r1 of Inl e \<Rightarrow> Inl e
      | Inr r \<Rightarrow>
          (case chain_n (d_c d) B (fst r) p' n' of
             Inl e \<Rightarrow> Inl e
           | Inr r2 \<Rightarrow> Inr (fst r2, snd r @ snd r2)))"
    using chain_n_add [of "d_c d" B "d_h d" all 1 n'] dp
    by (simp add: r1_def del: chain_n.simps cong: sum.case_cong)
  have carry: "Write_carry (d0, p) =
     Some (case r1 of
             Inl e \<Rightarrow> Inl e
           | Inr r \<Rightarrow>
               Inr (d0\<lparr>d_x := take B all, d_nx := 0,
                       d_h := fst r, d_calls := d_calls d @ snd r\<rparr>, p'))"
    using Write_carry_fill [OF ok0 f0(3) assms(3,4,5)]
    by (simp add: f0 all_def r1_def p'_def del: chain_n.simps take_append cong: sum.case_cong)
  have w: "Write d p = and_then (Write_carry (d0, p)) (\<lambda>s1. and_then (Write_full s1) Write_tail)"
    by (simp add: Write_def d0_def)
  have res: "Write_result d B k p =
     (case chain_n (d_c d) B (d_h d) all (Suc n') of
        Inl e \<Rightarrow> Inl e
      | Inr r \<Rightarrow>
          Inr (d0\<lparr>d_h := fst r, d_calls := d_calls d @ snd r, d_nx := int (length rest),
                  d_x := rest @ drop (length rest) (take B all)\<rparr>))"
    using cnd
    by (simp add: Write_result_def Let_def all_def [symmetric] n dr lr2 li d0_def
        del: chain_n.simps take_append cong: sum.case_cong)
  show ?thesis
  proof (cases r1)
    case (Inl e)
    then show ?thesis using w carry res ch by simp
  next
    case r1: (Inr ra)
    define d3 where "d3 = d0\<lparr>d_x := take B all, d_nx := 0,
                       d_h := fst ra, d_calls := d_calls d @ snd ra\<rparr>"
    have lh: "length (fst ra) = length (d_h d)"
      using B(3) r1 unfolding r1_def by (rule chain_n_length)
    have ok3: "static_ok d3 B"
      using ok0 lh lp B(2) by (simp add: d3_def f0)
    have f3: "d_c d3 = d_c d" "d_h d3 = fst ra" "d_nx d3 = 0" "d_x d3 = take B all"
      "d_calls d3 = d_calls d @ snd ra"
      by (simp_all add: d3_def f0)
    define r2 where "r2 = chain_n (d_c d) B (fst ra) p' n'"
    have full: "Write_full (d3, p') =
      Some (case r2 of Inl e \<Rightarrow> Inl e
            | Inr r \<Rightarrow> Inr (d3\<lparr>d_h := fst r, d_calls := d_calls d @ snd ra @ snd r\<rparr>, rest))"
      using Write_full_chain [OF ok3, of p']
      by (simp add: f3 r2_def n'_def rest_def cong: sum.case_cong)
    have w3: "Write d p = and_then (Write_full (d3, p')) Write_tail"
      using w carry r1 by (simp add: d3_def)
    show ?thesis
    proof (cases r2)
      case (Inl e)
      then show ?thesis using w3 full res ch r1 by (simp add: r2_def)
    next
      case r2: (Inr rb)
      let ?d4 = "d3\<lparr>d_h := fst rb, d_calls := d_calls d @ snd ra @ snd rb\<rparr>"
      have "Write_tail (?d4, rest) =
        Some (Inr (?d4\<lparr>d_nx := int (length rest), d_x := rest @ drop (length rest) (d_x ?d4)\<rparr>))"
        using lr lp f3 by (intro Write_tail_exact) simp_all
      then have "Write d p = Some (Inr (?d4\<lparr>d_nx := int (length rest),
          d_x := rest @ drop (length rest) (take B all)\<rparr>))"
        using w3 full r2 f3 by simp
      moreover have "Write_result d B k p = Inr (?d4\<lparr>d_nx := int (length rest),
          d_x := rest @ drop (length rest) (take B all)\<rparr>)"
        using res ch r1 r2 by (simp add: r2_def [symmetric] d3_def)
      ultimately show ?thesis by simp
    qed
  qed
qed

lemma Write_exact:
  assumes "static_ok d B" "d_nx d = int k" "k < B"
  shows "Write d p = Some (Write_result d B k p)"
proof -
  consider "k = 0" | "0 < k" "k + length p < B" | "0 < k" "B \<le> k + length p"
    by linarith
  then show ?thesis
  proof cases
    case 1
    then show ?thesis using assms Write_exact_empty_carry [of d B p] by simp
  next
    case 2
    then show ?thesis using assms by (intro Write_exact_partial)
  next
    case 3
    then show ?thesis using assms by (intro Write_exact_fill)
  qed
qed

section \<open>The invariant of an instance\<close>

lemma Matrix_rows_length: "Matrix_rows rows i msg dst = Inr dst' \<Longrightarrow> length dst' = length dst"
proof (induction rows arbitrary: i dst)
  case Nil
  then show ?case by simp
next
  case (Cons row rows)
  then show ?case
    by (cases "Matrix_bytes row 0 msg 0") (auto split: if_splits)
qed

lemma wf_Matrix_Compressor: "wf_Compressor (Matrix_Compressor A)"
  unfolding wf_Compressor_def Matrix_Compressor_def
  by (auto simp: Matrix_Compress_def Let_def simp del: Matrix_rows.simps
      dest: Matrix_rows_length split: list.splits if_splits)

lemma LookupTable_compress_rows_length:
  "LookupTable_compress_rows rows i msg dst = Inr dst' \<Longrightarrow> length dst' = length dst"
proof (induction rows arbitrary: i dst)
  case Nil
  then show ?case by simp
next
  case (Cons row rows)
  then show ?case
    by (cases "LookupTable_cells row 0 msg 0") (auto split: if_splits)
qed

lemma wf_LookupTable_Compressor: "wf_Compressor (LookupTable_Compressor At)"
  unfolding wf_Compressor_def LookupTable_Compressor_def
  by (auto simp: LookupTable_Compress_def Let_def simp del: LookupTable_compress_rows.simps
      dest: LookupTable_compress_rows_length split: list.splits if_splits)

lemma New_ok:
  assumes "wf_Compressor c" "New c = Some (Inr d0)" "0 < d_blockSize d0"
  shows "static_ok d0 (nat (d_blockSize d0))" "d_nx d0 = 0" "d_c d0 = c" "d_len d0 = 0"
    "d_h d0 = replicate (length (d_h d0)) 0"
proof -
  obtain n m where nm: "OutputLen c = Inr n" "InputLen c = Inr m"
    using assms(2) by (auto simp: New_def split: sum.splits)
  have g: "\<not> m - n * 8 < 0" "\<not> n < 0"
    using assms(2) nm by (auto simp: New_def split: if_splits)
  have d0: "d0 = Reset \<lparr>d_c = c, d_size = n * 8, d_blockSize = m - n * 8,
                   d_h = replicate (nat n) 0, d_x = replicate (nat (m - n * 8)) 0,
                   d_nx = 0, d_len = 0, d_calls = []\<rparr>"
    using assms(2) nm g by (simp add: New_def)
  show "static_ok d0 (nat (d_blockSize d0))"
    using assms(1,3) nm g unfolding d0 by (simp add: static_ok_def Reset_def)
  show "d_nx d0 = 0" "d_c d0 = c" "d_len d0 = 0" "d_h d0 = replicate (length (d_h d0)) 0"
    unfolding d0 by (simp_all add: Reset_def)
qed

lemma digest_okI: "static_ok d B \<Longrightarrow> d_nx d = int k \<Longrightarrow> k < B \<Longrightarrow> digest_ok d"
  unfolding digest_ok_def by blast

lemma static_ok_B: "static_ok d B \<Longrightarrow> B = nat (d_blockSize d)"
  by (simp add: static_ok_def)

lemma Write_result_ok:
  assumes "static_ok d B" "d_nx d = int k" "k < B" "Write_result d B k p = Inr d'"
  shows "static_ok d' B" "\<exists>k'. d_nx d' = int k' \<and> k' < B"
    "d_nx d' = int ((k + length p) mod B)" "d_len d' = d_len d + of_nat (length p)"
    "d_c d' = d_c d" "d_size d' = d_size d" "d_blockSize d' = d_blockSize d"
    "length (d_h d') = length (d_h d)"
proof -
  define all where "all = take k (d_x d) @ p"
  define n where "n = length all div B"
  define rest where "rest = drop (n * B) all"
  have B: "0 < B" "length (d_x d) = B" "wf_Compressor (d_c d)"
    using assms(1) by (simp_all add: static_ok_def)
  have la: "length all = k + length p" using assms(3) B(2) by (simp add: all_def)
  have lr: "length rest = (k + length p) mod B"
    unfolding rest_def n_def using la
    by simp (metis minus_mult_div_eq_mod mult.commute)
  then have lrB: "length rest < B" using B(1) by simp
  obtain r where r: "chain_n (d_c d) B (d_h d) all n = Inr r"
    using assms(4) unfolding Write_result_def Let_def all_def [symmetric] n_def [symmetric]
    by (cases "chain_n (d_c d) B (d_h d) all n") auto
  have lh: "length (fst r) = length (d_h d)" using B(3) r by (rule chain_n_length)
  have d': "d' = d\<lparr>d_len := d_len d + of_nat (length p), d_h := fst r,
                  d_calls := d_calls d @ snd r, d_nx := int (length rest),
                  d_x := rest @ drop (length rest)
                           (if 0 < k \<and> B \<le> length all then take B all else d_x d)\<rparr>"
    using assms(4) r unfolding Write_result_def Let_def all_def [symmetric] n_def [symmetric]
      rest_def [symmetric] by simp
  have lx: "length (rest @ drop (length rest)
                           (if 0 < k \<and> B \<le> length all then take B all else d_x d)) = B"
    using lrB B(2) by auto
  show "static_ok d' B" using assms(1) lh lx B(2) unfolding d' by simp
  show "\<exists>k'. d_nx d' = int k' \<and> k' < B" using lrB unfolding d' by auto
  show "d_nx d' = int ((k + length p) mod B)" using lr unfolding d' by simp
  show "d_len d' = d_len d + of_nat (length p)" "d_c d' = d_c d" "d_size d' = d_size d"
    "d_blockSize d' = d_blockSize d" "length (d_h d') = length (d_h d)"
    using lh unfolding d' by simp_all
qed

lemma Write_ok:
  assumes "digest_ok d" "Write d p = Some (Inr d')"
  shows "digest_ok d'" "d_blockSize d' = d_blockSize d" "d_c d' = d_c d" "d_size d' = d_size d"
    "length (d_h d') = length (d_h d)" "d_len d' = d_len d + of_nat (length p)"
proof -
  obtain B k where o: "static_ok d B" "d_nx d = int k" "k < B"
    using assms(1) unfolding digest_ok_def by blast
  have r: "Write_result d B k p = Inr d'"
    using Write_exact [OF o, of p] assms(2) by simp
  show "digest_ok d'"
    using Write_result_ok(1,2) [OF o r] unfolding digest_ok_def by blast
  show "d_blockSize d' = d_blockSize d" "d_c d' = d_c d" "d_size d' = d_size d"
    "length (d_h d') = length (d_h d)" "d_len d' = d_len d + of_nat (length p)"
    using Write_result_ok [OF o r] by simp_all
qed

lemma Write_returns: "digest_ok d \<Longrightarrow> Write d p \<noteq> None"
  unfolding digest_ok_def using Write_exact by fastforce

lemma Reset_ok: "digest_ok d \<Longrightarrow> digest_ok (Reset d)"
  unfolding digest_ok_def Reset_def
  by (auto simp: static_ok_def intro!: exI [of _ 0])

lemma run_ops_ok:
  "digest_ok d \<Longrightarrow>
   run_ops d ops \<noteq> None \<and>
   (\<forall>d'. run_ops d ops = Some (Inr d') \<longrightarrow> digest_ok d' \<and> d_blockSize d' = d_blockSize d)"
proof (induction d ops rule: run_ops.induct)
  case (1 d)
  then show ?case by simp
next
  case (2 d p ops)
  show ?case
  proof (cases "Write d p")
    case None
    then show ?thesis using Write_returns [OF "2.prems"] by simp
  next
    case (Some r)
    show ?thesis
    proof (cases r)
      case (Inl e)
      then show ?thesis using Some by simp
    next
      case (Inr d1)
      have "digest_ok d1" "d_blockSize d1 = d_blockSize d"
        using Write_ok [OF "2.prems"] Some Inr by simp_all
      then show ?thesis using "2.IH" [of d1] Some Inr by simp
    qed
  qed
next
  case (3 d ops)
  have "digest_ok (Reset d)" using "3.prems" by (rule Reset_ok)
  moreover have "d_blockSize (Reset d) = d_blockSize d" by (simp add: Reset_def)
  ultimately show ?case using "3.IH" by simp
qed

section \<open>Chunked writes and what \<^verbatim>\<open>Sum\<close> depends on\<close>

lemma map_res_simps [simp]:
  "map_res f None = None"
  "map_res f (Some (Inl e)) = Some (Inl e)"
  "map_res f (Some (Inr v)) = Some (Inr (f v))"
  by (simp_all add: map_res_def)

lemma view_fields [simp]:
  "d_c (view d) = d_c d" "d_size (view d) = d_size d" "d_blockSize (view d) = d_blockSize d"
  "d_h (view d) = d_h d" "d_nx (view d) = d_nx d" "d_len (view d) = d_len d"
  "d_x (view d) = pending d" "d_calls (view d) = []"
  by (simp_all add: view_def)

lemma view_eqD:
  assumes "view d = view d'"
  shows "d_c d = d_c d'" "d_size d = d_size d'" "d_blockSize d = d_blockSize d'"
    "d_h d = d_h d'" "d_nx d = d_nx d'" "d_len d = d_len d'" "pending d = pending d'"
  using assms view_fields by metis+

lemma Write_result_view:
  assumes "static_ok d B" "d_nx d = int k" "k < B"
  shows "map_sum id view (Write_result d B k p) = Write_view (view d) B p"
proof -
  define all where "all = take k (d_x d) @ p"
  define n where "n = length all div B"
  define rest where "rest = drop (n * B) all"
  define rc where "rc = chain_n (d_c d) B (d_h d) all n"
  have B: "0 < B" "length (d_x d) = B" using assms(1) by (simp_all add: static_ok_def)
  have pd: "pending d = take k (d_x d)" using assms(2) by (simp add: pending_def)
  have la: "length all = k + length p" using assms(3) B(2) by (simp add: all_def)
  have lr: "length rest = (k + length p) mod B"
    unfolding rest_def n_def using la
    by simp (metis minus_mult_div_eq_mod mult.commute)
  then have lrB: "length rest < B" using B(1) by simp
  have wr: "Write_result d B k p =
      (case rc of Inl e \<Rightarrow> Inl e
       | Inr r \<Rightarrow>
          Inr (d\<lparr>d_len := d_len d + of_nat (length p), d_h := fst r,
                  d_calls := d_calls d @ snd r, d_nx := int (length rest),
                  d_x := rest @ drop (length rest)
                           (if 0 < k \<and> B \<le> length all then take B all else d_x d)\<rparr>))"
    unfolding Write_result_def Let_def all_def [symmetric] n_def [symmetric] rest_def [symmetric]
      rc_def [symmetric] ..
  have wv: "Write_view (view d) B p =
      (case rc of Inl e \<Rightarrow> Inl e
       | Inr r \<Rightarrow>
          Inr ((view d)\<lparr>d_len := d_len d + of_nat (length p), d_h := fst r,
                  d_nx := int (length rest), d_x := rest\<rparr>))"
    unfolding Write_view_def Let_def view_fields pd all_def [symmetric] n_def [symmetric]
      rest_def [symmetric] rc_def [symmetric] ..
  show ?thesis
  proof (cases rc)
    case (Inl e)
    then show ?thesis unfolding wr wv by simp
  next
    case (Inr r)
    then show ?thesis unfolding wr wv by (simp add: view_def pending_def)
  qed
qed

lemma Write_view_eq:
  assumes "digest_ok d"
  shows "map_res view (Write d p) = Some (Write_view (view d) (nat (d_blockSize d)) p)"
proof -
  obtain B k where o: "static_ok d B" "d_nx d = int k" "k < B"
    using assms unfolding digest_ok_def by blast
  have B: "B = nat (d_blockSize d)" using o(1) by (rule static_ok_B)
  have "map_res view (Write d p) = Some (map_sum id view (Write_result d B k p))"
    using Write_exact [OF o, of p] by (simp add: map_res_def)
  then show ?thesis using Write_result_view [OF o, of p] B by simp
qed

lemma Write_view_append:
  assumes "0 < B"
  shows "Write_view v B (p @ q) =
     (case Write_view v B p of Inl e \<Rightarrow> Inl e | Inr v1 \<Rightarrow> Write_view v1 B q)"
proof -
  define a1 where "a1 = d_x v @ p"
  define n1 where "n1 = length a1 div B"
  define rest1 where "rest1 = drop (n1 * B) a1"
  define a2 where "a2 = rest1 @ q"
  define n2 where "n2 = length a2 div B"
  define rest2 where "rest2 = drop (n2 * B) a2"
  define all where "all = d_x v @ p @ q"
  define r1 where "r1 = chain_n (d_c v) B (d_h v) a1 n1"
  have all: "all = a1 @ q" by (simp add: all_def a1_def)
  have le1: "n1 * B \<le> length a1" by (simp add: n1_def)
  have l1: "length a1 = n1 * B + length rest1" using le1 by (simp add: rest1_def)
  have "length all = n1 * B + length a2" using l1 by (simp add: all a2_def)
  then have n: "length all div B = n1 + n2" using assms by (simp add: n2_def)
  have d1: "drop (n1 * B) all = a2" using le1 by (simp add: all a2_def rest1_def)
  have "drop ((n1 + n2) * B) all = drop (n2 * B) (drop (n1 * B) all)"
    by (simp add: add_mult_distrib add.commute)
  then have d2: "drop ((n1 + n2) * B) all = rest2" unfolding d1 rest2_def .
  have "chain_n (d_c v) B (d_h v) (take (length a1) all) n1 = chain_n (d_c v) B (d_h v) all n1"
    using le1 by (rule chain_n_take)
  then have c1: "chain_n (d_c v) B (d_h v) all n1 = r1" by (simp add: all r1_def)
  have ch: "chain_n (d_c v) B (d_h v) all (n1 + n2) =
     (case r1 of Inl e \<Rightarrow> Inl e
      | Inr r \<Rightarrow>
          (case chain_n (d_c v) B (fst r) a2 n2 of
             Inl e \<Rightarrow> Inl e
           | Inr r2 \<Rightarrow> Inr (fst r2, snd r @ snd r2)))"
    using chain_n_add [of "d_c v" B "d_h v" all n1 n2] unfolding c1 d1 .
  have w: "Write_view v B (p @ q) =
     (case chain_n (d_c v) B (d_h v) all (n1 + n2) of
        Inl e \<Rightarrow> Inl e
      | Inr r \<Rightarrow>
          Inr (v\<lparr>d_len := d_len v + of_nat (length (p @ q)), d_h := fst r,
                  d_nx := int (length rest2), d_x := rest2\<rparr>))"
    unfolding Write_view_def Let_def all_def [symmetric] n d2 ..
  have w1: "Write_view v B p =
     (case r1 of Inl e \<Rightarrow> Inl e
      | Inr r \<Rightarrow>
          Inr (v\<lparr>d_len := d_len v + of_nat (length p), d_h := fst r,
                  d_nx := int (length rest1), d_x := rest1\<rparr>))"
    unfolding Write_view_def Let_def a1_def [symmetric] n1_def [symmetric] rest1_def [symmetric]
      r1_def [symmetric] ..
  show ?thesis
  proof (cases r1)
    case (Inl e)
    then show ?thesis unfolding w w1 ch by simp
  next
    case r1: (Inr ra)
    let ?v1 = "v\<lparr>d_len := d_len v + of_nat (length p), d_h := fst ra,
                  d_nx := int (length rest1), d_x := rest1\<rparr>"
    have w2: "Write_view ?v1 B q =
      (case chain_n (d_c v) B (fst ra) a2 n2 of
        Inl e \<Rightarrow> Inl e
      | Inr r \<Rightarrow>
          Inr (?v1\<lparr>d_len := d_len ?v1 + of_nat (length q), d_h := fst r,
                  d_nx := int (length rest2), d_x := rest2\<rparr>))"
      unfolding Write_view_def Let_def
      by (simp add: a2_def [symmetric] n2_def [symmetric] rest2_def [symmetric]
          cong: sum.case_cong)
    show ?thesis
      unfolding w w1 ch r1 by (simp add: w2 add.assoc split: sum.splits)
  qed
qed

lemma view_ok_Write:
  assumes "digest_ok d" "digest_ok d'" "view d = view d'"
  shows "map_res view (Write d p) = map_res view (Write d' p)"
  using Write_view_eq [OF assms(1), of p] Write_view_eq [OF assms(2), of p] assms(3)
    view_eqD(3) [OF assms(3)] by simp

lemma Write_view_Nil:
  assumes "digest_ok d"
  shows "Write_view (view d) (nat (d_blockSize d)) [] = Inr (view d)"
proof -
  obtain B k where o: "static_ok d B" "d_nx d = int k" "k < B"
    using assms unfolding digest_ok_def by blast
  have B: "B = nat (d_blockSize d)" "length (d_x d) = B"
    using o(1) by (simp_all add: static_ok_def)
  have lp: "length (pending d) = k" using o(2,3) B(2) by (simp add: pending_def)
  then have n: "length (pending d) div B = 0" using o(3) by simp
  have "(view d)\<lparr>d_len := d_len d, d_h := d_h d, d_nx := int k, d_x := pending d\<rparr> = view d"
    using o(2) by (intro digest.equality) simp_all
  then show ?thesis
    using n lp unfolding B(1) [symmetric] by (simp add: Write_view_def)
qed

lemma Write_all_ok:
  "digest_ok d \<Longrightarrow> Write_all d ps = Some (Inr d') \<Longrightarrow>
   digest_ok d' \<and> d_blockSize d' = d_blockSize d"
proof (induction ps arbitrary: d)
  case Nil
  then show ?case by simp
next
  case (Cons p ps)
  obtain d1 where d1: "Write d p = Some (Inr d1)" "Write_all d1 ps = Some (Inr d')"
    using Cons.prems(2) by (cases "Write d p") (auto simp: and_then_def split: sum.splits)
  have "digest_ok d1" "d_blockSize d1 = d_blockSize d"
    using Write_ok [OF Cons.prems(1) d1(1)] by simp_all
  then show ?case using Cons.IH [OF _ d1(2)] by simp
qed

lemma Write_all_view:
  "digest_ok d \<Longrightarrow>
   map_res view (Write_all d ps) = Some (Write_view (view d) (nat (d_blockSize d)) (concat ps))"
proof (induction ps arbitrary: d)
  case Nil
  then show ?case by (simp add: Write_view_Nil)
next
  case (Cons p ps)
  let ?B = "nat (d_blockSize d)"
  have B: "0 < ?B" using Cons.prems unfolding digest_ok_def static_ok_def by auto
  have w: "map_res view (Write d p) = Some (Write_view (view d) ?B p)"
    using Cons.prems by (rule Write_view_eq)
  have app: "Write_view (view d) ?B (p @ concat ps) =
     (case Write_view (view d) ?B p of Inl e \<Rightarrow> Inl e | Inr v1 \<Rightarrow> Write_view v1 ?B (concat ps))"
    using B by (rule Write_view_append)
  show ?case
  proof (cases "Write d p")
    case None
    then show ?thesis using w by simp
  next
    case (Some r)
    show ?thesis
    proof (cases r)
      case (Inl e)
      have wv: "Write_view (view d) ?B p = Inl e" using w Some Inl by simp
      show ?thesis using Some Inl by (simp add: app wv)
    next
      case (Inr d1)
      have wv: "Write_view (view d) ?B p = Inr (view d1)" using w Some Inr by simp
      have ok1: "digest_ok d1" and b1: "d_blockSize d1 = d_blockSize d"
        using Write_ok [OF Cons.prems] Some Inr by simp_all
      have "map_res view (Write_all d1 ps) =
          Some (Write_view (view d1) (nat (d_blockSize d1)) (concat ps))"
        using ok1 by (rule Cons.IH)
      then show ?thesis using Some Inr b1 by (simp add: app wv)
    qed
  qed
qed

lemma Write_all_concat_view:
  assumes "digest_ok d"
  shows "map_res view (Write_all d ps) = map_res view (Write d (concat ps))"
  using Write_all_view [OF assms, of ps] Write_view_eq [OF assms, of "concat ps"] by simp

lemma copy_id: "copy d = d"
  by (simp add: copy_def copy_slice_def)

lemma and_then_view_cong:
  assumes "map_res view r = map_res view r'"
    and "\<And>a a'. r = Some (Inr a) \<Longrightarrow> r' = Some (Inr a') \<Longrightarrow> view a = view a' \<Longrightarrow>
           map_res f (g a) = map_res f (g' a')"
  shows "map_res f (and_then r g) = map_res f (and_then r' g')"
proof (cases r)
  case None
  then have "r' = None" using assms(1) by (cases r') (auto simp: map_res_def)
  then show ?thesis using None by simp
next
  case (Some x)
  then obtain x' where x': "r' = Some x'" using assms(1) by (cases r') (auto simp: map_res_def)
  show ?thesis
  proof (cases x)
    case (Inl e)
    then have "x' = Inl e" using assms(1) Some x' by (cases x') simp_all
    then show ?thesis using Some x' Inl by simp
  next
    case (Inr a)
    then obtain a' where a': "x' = Inr a'" "view a = view a'"
      using assms(1) Some x' by (cases x') simp_all
    then show ?thesis using assms(2) [of a a'] Some x' Inr by simp
  qed
qed

lemma checkSum_pad_view:
  assumes "digest_ok d" "digest_ok d'" "view d = view d'"
  shows "map_res view (checkSum_pad d) = map_res view (checkSum_pad d')"
proof -
  define B where "B = (word_of_int (d_blockSize d) :: u64)"
  define tmp where "tmp = (replicate (nat (d_blockSize d)) (0::byte))[0 := 0x80]"
  define k where "k = (if d_len d mod B < B - 8 then unat (B - 8 - d_len d mod B)
                       else unat (B + (B - 8) - d_len d mod B))"
  define g where "g = (\<lambda>d1. if length tmp < 8 then Some (Inl OutOfRange)
                              else Write d1 (PutUint64 (push_bit 3 (d_len d1))))"
  have e: "d_blockSize d' = d_blockSize d" "d_len d' = d_len d"
    using view_eqD [OF assms(3)] by simp_all
  have pos: "0 < d_blockSize d" using assms(1) unfolding digest_ok_def static_ok_def by auto
  have f: "checkSum_pad d =
      (if length tmp < k then Some (Inl OutOfRange) else and_then (Write d (take k tmp)) g)"
    using pos by (simp add: checkSum_pad_def Let_def B_def tmp_def k_def g_def)
  have f': "checkSum_pad d' =
      (if length tmp < k then Some (Inl OutOfRange) else and_then (Write d' (take k tmp)) g)"
    using pos by (simp add: checkSum_pad_def Let_def e B_def tmp_def k_def g_def)
  have "map_res view (and_then (Write d (take k tmp)) g) =
      map_res view (and_then (Write d' (take k tmp)) g)"
  proof (rule and_then_view_cong)
    show "map_res view (Write d (take k tmp)) = map_res view (Write d' (take k tmp))"
      using assms by (rule view_ok_Write)
  next
    fix a1 a1' assume w: "Write d (take k tmp) = Some (Inr a1)"
      "Write d' (take k tmp) = Some (Inr a1')" and v: "view a1 = view a1'"
    have ok: "digest_ok a1" "digest_ok a1'"
      using Write_ok(1) [OF assms(1) w(1)] Write_ok(1) [OF assms(2) w(2)] by simp_all
    have "d_len a1 = d_len a1'" using view_eqD [OF v] by simp
    then show "map_res view (g a1) = map_res view (g a1')"
      unfolding g_def using view_ok_Write [OF ok v] by simp
  qed
  then show ?thesis unfolding f f' by simp
qed

lemma checkSum_view:
  assumes "digest_ok d" "digest_ok d'" "view d = view d'"
  shows "map_res snd (checkSum d) = map_res snd (checkSum d')"
  unfolding checkSum_def
proof (rule and_then_view_cong)
  show "map_res view (checkSum_pad d) = map_res view (checkSum_pad d')"
    using assms by (rule checkSum_pad_view)
next
  fix a a' assume v: "view a = view a'"
  have "d_nx a = d_nx a'" "d_size a = d_size a'" "d_h a = d_h a'"
    using view_eqD [OF v] by simp_all
  then show "map_res snd
        (if d_nx a \<noteq> 0 then Some (Inl NxNotZero)
         else if d_size a < 0 then Some (Inl MakeLen)
         else (case put_words (d_h a) 0 (replicate (nat (d_size a)) 0) of
                 Inl e \<Rightarrow> Some (Inl e)
               | Inr bs \<Rightarrow> Some (Inr (a, bs)))) =
       map_res snd
        (if d_nx a' \<noteq> 0 then Some (Inl NxNotZero)
         else if d_size a' < 0 then Some (Inl MakeLen)
         else (case put_words (d_h a') 0 (replicate (nat (d_size a')) 0) of
                 Inl e \<Rightarrow> Some (Inl e)
               | Inr bs \<Rightarrow> Some (Inr (a', bs))))"
    by (simp split: sum.splits)
qed

lemma Sum_map_res: "Sum d inp = map_res (\<lambda>bs. inp @ bs) (map_res snd (checkSum d))"
  unfolding Sum_def copy_id
  by (cases "checkSum d") (auto simp: and_then_def map_res_def split: sum.splits)

lemma Sum_view:
  assumes "digest_ok d" "digest_ok d'" "view d = view d'"
  shows "Sum d inp = Sum d' inp"
  unfolding Sum_map_res using checkSum_view [OF assms] by simp

lemma and_then_Sum_view:
  assumes "map_res view r = map_res view r'"
    and "\<And>a. r = Some (Inr a) \<Longrightarrow> digest_ok a" "\<And>a. r' = Some (Inr a) \<Longrightarrow> digest_ok a"
  shows "and_then r (\<lambda>d. Sum d inp) = and_then r' (\<lambda>d. Sum d inp)"
proof -
  have "map_res id (and_then r (\<lambda>d. Sum d inp)) = map_res id (and_then r' (\<lambda>d. Sum d inp))"
    using assms(1)
  proof (rule and_then_view_cong)
    fix a a' assume "r = Some (Inr a)" "r' = Some (Inr a')" "view a = view a'"
    then show "map_res id (Sum a inp) = map_res id (Sum a' inp)"
      using Sum_view [of a a' inp] assms(2,3) by simp
  qed
  moreover have "\<And>x :: byte list result. map_res id x = x"
    by (simp add: map_res_def option.map_id0 sum.map_id0 id_def [symmetric])
  ultimately show ?thesis by simp
qed

lemma checkSum_pad_returns:
  assumes "digest_ok d"
  shows "checkSum_pad d \<noteq> None"
proof -
  have "and_then (Write d a) (\<lambda>d1. if t then Some (Inl OutOfRange) else Write d1 (f d1)) \<noteq> None"
    for a t f
  proof (cases "Write d a")
    case None
    then show ?thesis using Write_returns [OF assms, of a] by simp
  next
    case (Some r)
    show ?thesis
    proof (cases r)
      case (Inl e)
      then show ?thesis using Some by simp
    next
      case (Inr d1)
      have "digest_ok d1" using Write_ok(1) [OF assms] Some Inr by simp
      then show ?thesis using Some Inr Write_returns [of d1] by simp
    qed
  qed
  then show ?thesis by (simp add: checkSum_pad_def Let_def)
qed

lemma Sum_returns: "digest_ok d \<Longrightarrow> Sum d inp \<noteq> None"
  using checkSum_pad_returns [of d]
  by (cases "checkSum_pad d")
     (auto simp: Sum_def copy_id checkSum_def and_then_def split: sum.splits)

lemma and_then_Sum_returns:
  assumes "r \<noteq> None" "\<And>a. r = Some (Inr a) \<Longrightarrow> digest_ok a"
  shows "and_then r (\<lambda>d. Sum d inp) \<noteq> None"
proof (cases r)
  case None
  then show ?thesis using assms(1) by simp
next
  case (Some x)
  then show ?thesis using assms(2) Sum_returns by (cases x) auto
qed

lemma New_digest_ok:
  assumes "wf_Compressor c" "New c = Some (Inr d0)" "0 < d_blockSize d0"
  shows "digest_ok d0"
  using New_ok(1,2) [OF assms] assms(3)
  by (intro digest_okI [of d0 "nat (d_blockSize d0)" 0]) simp_all

lemma New_Matrix_1x128:
  assumes "length row = 128"
  shows "New (Matrix_Compressor [row]) =
     Some (Inr \<lparr>d_c = Matrix_Compressor [row], d_size = 8, d_blockSize = 8,
                 d_h = [0], d_x = [0, 0, 0, 0, 0, 0, 0, 0], d_nx = 0, d_len = 0, d_calls = []\<rparr>)"
proof -
  have "replicate 8 (0::byte) = [0, 0, 0, 0, 0, 0, 0, 0]" by (simp add: eval_nat_numeral)
  then show ?thesis
    using assms
    by (simp add: New_def Matrix_Compressor_def Matrix_InputLen_def Matrix_OutputLen_def Reset_def)
qed

section \<open>Claims\<close>

text \<open>
  C9. Both \<^verbatim>\<open>Compress\<close> methods reject a destination shorter than the declared
  output length and a message shorter than the declared input length: the call fails
  at its guards with the bounds panic, and the destination it leaves is the one it was
  given, no word of it written.
\<close>

theorem C9_Compress_rejects_short_buffers:
  "(Matrix_OutputLen A = Inr N \<longrightarrow> Matrix_InputLen A = Inr L \<longrightarrow>
      (int (length dst) < N \<or> int (length msg) < L) \<longrightarrow>
      Matrix_Compress A dst msg = Inl (OutOfRange, dst)) \<and>
   (LookupTable_OutputLen At = Inr N' \<longrightarrow> LookupTable_InputLen At = Inr L' \<longrightarrow>
      (int (length dst') < N' \<or> int (length msg') < L') \<longrightarrow>
      LookupTable_Compress At dst' msg' = Inl (OutOfRange, dst'))"
proof (intro conjI impI)
  assume "Matrix_OutputLen A = Inr N" "Matrix_InputLen A = Inr L"
    "int (length dst) < N \<or> int (length msg) < L"
  then have "int (length dst) < int (length A) \<or>
      (\<exists>n. Matrix_InputLen A = Inr n \<and> int (length msg) < n)"
    by (auto simp: Matrix_OutputLen_def)
  then show "Matrix_Compress A dst msg = Inl (OutOfRange, dst)"
    by (rule Matrix_Compress_short)
next
  assume "LookupTable_OutputLen At = Inr N'" "LookupTable_InputLen At = Inr L'"
    "int (length dst') < N' \<or> int (length msg') < L'"
  then have "int (length dst') < int (length At) \<or>
      (\<exists>n. LookupTable_InputLen At = Inr n \<and> int (length msg') < n)"
    by (auto simp: LookupTable_OutputLen_def)
  then show "LookupTable_Compress At dst' msg' = Inl (OutOfRange, dst')"
    by (rule LookupTable_Compress_short)
qed

theorem C9_Compress_rejects_short_buffers_witness:
  "Matrix_OutputLen [replicate 16 1, replicate 16 2] = Inr 2 \<and>
   Matrix_InputLen [replicate 16 1, replicate 16 2] = Inr 2 \<and>
   int (length [5 :: u64]) < 2 \<and>
   Matrix_Compress [replicate 16 1, replicate 16 2] [5] [255, 255] = Inl (OutOfRange, [5]) \<and>
   LookupTable_OutputLen [[replicate 256 1, replicate 256 2]] = Inr 1 \<and>
   LookupTable_InputLen [[replicate 256 1, replicate 256 2]] = Inr 2 \<and>
   int (length [255 :: byte]) < 2 \<and>
   LookupTable_Compress [[replicate 256 1, replicate 256 2]] [7, 8] [255] = Inl (OutOfRange, [7, 8])"
  using C9_Compress_rejects_short_buffers
    [of "[replicate 16 1, replicate 16 2]" 2 2 "[5]" "[255, 255]"
        "[[replicate 256 1, replicate 256 2]]" 1 2 "[7, 8]" "[255]"]
  by (simp add: Matrix_OutputLen_def Matrix_InputLen_def LookupTable_OutputLen_def
      LookupTable_InputLen_def)

text \<open>
  C8. \<^verbatim>\<open>RandomMatrix\<close> drops the byte count of \<^verbatim>\<open>rand.Read\<close>. On a source
  that delivers one byte per call and never an error (64 calls, each the byte
  \<open>0xAB\<close>), with 1 row and compression factor 1, it returns a matrix of 64 cells
  and does not fail, although no call supplied the 8 bytes asked for: every cell is
  \<open>0xAB\<close>, one byte of the source above seven bytes that were never read.
\<close>

theorem C8_RandomMatrix_short_reads:
  "RandomMatrix (replicate 64 ([0xAB], False)) 1 1 = Inr [replicate 64 0xAB]"
proof -
  have w: "replicate 8 (0::byte) = 0 # [0, 0, 0, 0, 0, 0, 0]"
    by (simp add: eval_nat_numeral)
  have len: "length [0..<64] = 64"
    by simp
  have "RandomMatrix_cells [0..<64] (replicate (length [0..<64]) ([0xAB], False))
          (0 # [0, 0, 0, 0, 0, 0, 0]) (replicate 64 0)
      = Inr (fold (\<lambda>j r. r[j := Uint64 (0xAB # [0, 0, 0, 0, 0, 0, 0])]) [0..<64] (replicate 64 0),
             (if [0..<64] = [] then 0 else 0xAB) # [0, 0, 0, 0, 0, 0, 0], [])"
    by (rule RandomMatrix_cells_one_byte)
  then have cells:
    "RandomMatrix_cells [0..<64] (replicate 64 ([0xAB], False)) (replicate 8 0) (replicate 64 0)
      = Inr (replicate 64 0xAB, 0xAB # [0, 0, 0, 0, 0, 0, 0], [])"
    unfolding len w fold_update_all Uint64_low by simp
  have "RandomMatrix (replicate 64 ([0xAB], False)) 1 1
      = RandomMatrix_rows [0] 64 (replicate 64 ([0xAB], False)) (replicate 8 0) [[]]"
    by (simp add: RandomMatrix_def)
  also have "\<dots> = Inr [replicate 64 0xAB]"
    using cells by simp
  finally show ?thesis .
qed

text \<open>
  C1. For a matrix \<open>A\<close> of \<open>N\<close> rows and \<open>M = compressionFactor * N * 64\<close> columns and
  a message of \<open>M div 8\<close> bytes, \<^verbatim>\<open>A.LookupTable()\<close> returns a table whose
  \<^verbatim>\<open>Compress\<close> has the outcome of \<^verbatim>\<open>A.Compress\<close> on every destination:
  the same words written, or the same panic with the same destination. Only the matrix
  with no row has no table; its \<^verbatim>\<open>Compress\<close> fails as the derivation does.
\<close>

theorem C1_LookupTable_Compress_eq_Matrix_Compress:
  assumes "length A = N" "\<forall>row\<in>set A. length row = M" "M = compressionFactor * N * 64"
    "length msg = M div 8"
  shows "(A \<noteq> [] \<longrightarrow>
            (\<exists>At. LookupTable A = Inr At \<and>
                  LookupTable_Compress At dst msg = Matrix_Compress A dst msg)) \<and>
         (A = [] \<longrightarrow>
            LookupTable A = Inl OutOfRange \<and> Matrix_Compress A dst msg = Inl (OutOfRange, dst))"
proof (intro conjI impI)
  assume "A \<noteq> []"
  moreover have "8 dvd M" using assms(3) by simp
  ultimately show "\<exists>At. LookupTable A = Inr At \<and>
      LookupTable_Compress At dst msg = Matrix_Compress A dst msg"
    using assms(2,4) by (intro LookupTable_Compress_eq) auto
next
  assume "A = []"
  then show "LookupTable A = Inl OutOfRange" by (simp add: LookupTable_def)
next
  assume "A = []"
  then show "Matrix_Compress A dst msg = Inl (OutOfRange, dst)" by (simp add: Matrix_Compress_def)
qed

theorem C1_LookupTable_Compress_eq_Matrix_Compress_witness:
  "\<exists>At. LookupTable [replicate 64 3] = Inr At \<and>
     LookupTable_Compress At [0] [1, 2, 3, 4, 5, 6, 7, 8] =
       Matrix_Compress [replicate 64 3] [0] [1, 2, 3, 4, 5, 6, 7, 8]"
  using C1_LookupTable_Compress_eq_Matrix_Compress
    [of "[replicate 64 3]" 1 64 1 "[1, 2, 3, 4, 5, 6, 7, 8]" "[0]"]
  by simp

text \<open>
  C2, as stated, fails on a matrix with fewer than 8 columns: with one row of no
  column, the empty message and a destination of one word, the guard
  \<^verbatim>\<open>_ = msg[len(A[0])/8-1]\<close> reads index \<open>- 1\<close> and the call panics; the word of
  the destination is not set to the empty sum.
\<close>

theorem C2_Matrix_Compress_counterexample:
  "length [[] :: u64 list] = 1 \<and> length ([] :: u64 list) = 0 \<and>
   length ([] :: byte list) = 0 div 8 \<and> 1 \<le> length [7 :: u64] \<and>
   Matrix_Compress [[]] [7] [] = Inl (OutOfRange, [7])"
  by (simp add: Matrix_Compress_def)

text \<open>
  C2, amended. For a matrix \<open>A\<close> of \<open>N \<ge> 1\<close> rows and \<open>M \<ge> 8\<close> columns, a message of
  exactly \<open>M div 8\<close> bytes and a destination of at least \<open>N\<close> words,
  \<^verbatim>\<open>Matrix.Compress\<close> returns, and it has set \<open>dst[i]\<close> for every row \<open>i < N\<close> to
  the sum modulo \<open>2 ^ 64\<close> of \<open>A[i][8j+b]\<close> over the bytes \<open>j\<close> and the bit positions
  \<open>b\<close>, most significant first, whose bit is set in \<open>msg[j]\<close>. The words of the
  destination from \<open>N\<close> on are as they were.
\<close>

theorem C2_Matrix_Compress_row_sums:
  assumes "length A = N" "\<forall>row\<in>set A. length row = M" "1 \<le> N" "8 \<le> M"
    "length msg = M div 8" "N \<le> length dst"
  shows "\<exists>dst'. Matrix_Compress A dst msg = Inr dst' \<and> length dst' = length dst \<and>
           (\<forall>i<N. dst' ! i = spec_row_sum (A ! i) msg) \<and> drop N dst' = drop N dst"
proof -
  have "A \<noteq> []" using assms(1,3) by auto
  moreover have "length A \<le> length dst" using assms(1,6) by simp
  ultimately have "Matrix_Compress A dst msg =
      Inr (map (\<lambda>row. spec_row_sum row msg) A @ drop (length A) dst)"
    using assms(2,4,5) by (intro Matrix_Compress_spec) auto
  moreover have "\<forall>i<N. (map (\<lambda>row. spec_row_sum row msg) A @ drop (length A) dst) ! i =
      spec_row_sum (A ! i) msg"
    using assms(1) by (simp add: nth_append)
  ultimately show ?thesis
    using assms(1,6) by simp
qed

theorem C2_Matrix_Compress_row_sums_witness:
  "\<exists>dst'. Matrix_Compress [[1, 2, 4, 8, 16, 32, 64, 128]] [9, 9] [0xA0] = Inr dst' \<and>
     length dst' = length [9, 9 :: u64] \<and> dst' ! 0 = 5 \<and> drop 1 dst' = [9]"
proof -
  have "spec_row_sum [1, 2, 4, 8, 16, 32, 64, 128] [0xA0] = 5"
    by (simp add: spec_row_sum_def lessThan_nat_numeral lessThan_Suc bit_numeral_rec)
  then show ?thesis
    using C2_Matrix_Compress_row_sums
      [of "[[1, 2, 4, 8, 16, 32, 64, 128]]" 1 8 "[0xA0]" "[9, 9]"]
    by simp
qed

text \<open>
  C10. For a digest that \<^verbatim>\<open>New\<close> returns for a well-formed compressor of positive
  block size \<open>B\<close>, the count of carried bytes satisfies \<open>0 \<le> nx < B\<close> after
  construction and after every sequence of \<^verbatim>\<open>Write\<close> and \<^verbatim>\<open>Reset\<close> calls
  that returns; and every such sequence returns or panics (in the compressor): no call
  runs forever.
\<close>

theorem C10_carry_below_block_size:
  assumes "wf_Compressor c" "New c = Some (Inr d0)" "0 < d_blockSize d0"
  shows "0 \<le> d_nx d0 \<and> d_nx d0 < d_blockSize d0 \<and>
         (\<forall>ops. run_ops d0 ops \<noteq> None \<and>
            (\<forall>d. run_ops d0 ops = Some (Inr d) \<longrightarrow>
               d_blockSize d = d_blockSize d0 \<and> 0 \<le> d_nx d \<and> d_nx d < d_blockSize d))"
proof -
  have s: "static_ok d0 (nat (d_blockSize d0))" and n: "d_nx d0 = 0"
    using New_ok [OF assms] by simp_all
  have ok: "digest_ok d0"
    using s n assms(3) by (intro digest_okI [of d0 "nat (d_blockSize d0)" 0]) simp_all
  have r: "\<And>d. digest_ok d \<Longrightarrow> 0 \<le> d_nx d \<and> d_nx d < d_blockSize d"
    unfolding digest_ok_def static_ok_def by auto
  have "run_ops d0 ops \<noteq> None \<and>
      (\<forall>d. run_ops d0 ops = Some (Inr d) \<longrightarrow>
         d_blockSize d = d_blockSize d0 \<and> 0 \<le> d_nx d \<and> d_nx d < d_blockSize d)" for ops
  proof (intro conjI allI impI)
    show "run_ops d0 ops \<noteq> None" using run_ops_ok [OF ok, of ops] by simp
  next
    fix d assume "run_ops d0 ops = Some (Inr d)"
    then have "digest_ok d" "d_blockSize d = d_blockSize d0"
      using run_ops_ok [OF ok, of ops] by simp_all
    then show "d_blockSize d = d_blockSize d0" "0 \<le> d_nx d" "d_nx d < d_blockSize d"
      using r [of d] by simp_all
  qed
  then have main: "\<forall>ops. run_ops d0 ops \<noteq> None \<and>
      (\<forall>d. run_ops d0 ops = Some (Inr d) \<longrightarrow>
         d_blockSize d = d_blockSize d0 \<and> 0 \<le> d_nx d \<and> d_nx d < d_blockSize d)"
    by blast
  have b: "0 \<le> d_nx d0" "d_nx d0 < d_blockSize d0" using n assms(3) by simp_all
  show ?thesis using b main by blast
qed

theorem C10_carry_below_block_size_witness:
  "New (Matrix_Compressor [replicate 128 1]) =
     Some (Inr \<lparr>d_c = Matrix_Compressor [replicate 128 1], d_size = 8, d_blockSize = 8,
                 d_h = [0], d_x = [0, 0, 0, 0, 0, 0, 0, 0], d_nx = 0, d_len = 0, d_calls = []\<rparr>) \<and>
   (\<exists>d. run_ops \<lparr>d_c = Matrix_Compressor [replicate 128 1], d_size = 8, d_blockSize = 8,
                  d_h = [0], d_x = [0, 0, 0, 0, 0, 0, 0, 0], d_nx = 0, d_len = 0, d_calls = []\<rparr>
            [Op_Write [1, 2, 3, 4, 5, 6, 7, 8, 9, 10, 11, 12], Op_Reset, Op_Write [1, 2, 3]] =
          Some (Inr d) \<and> d_blockSize d = 8 \<and> 0 \<le> d_nx d \<and> d_nx d < d_blockSize d \<and> d_nx d = 3)"
proof -
  let ?c = "Matrix_Compressor [replicate 128 1]"
  let ?d0 = "\<lparr>d_c = ?c, d_size = 8, d_blockSize = 8,
                 d_h = [0], d_x = [0, 0, 0, 0, 0, 0, 0, 0], d_nx = 0, d_len = 0, d_calls = []\<rparr>"
  let ?ops = "[Op_Write [1, 2, 3, 4, 5, 6, 7, 8, 9, 10, 11, 12], Op_Reset, Op_Write [1, 2, 3]]"
  have "replicate 8 (0::byte) = [0, 0, 0, 0, 0, 0, 0, 0]" by (simp add: eval_nat_numeral)
  then have new: "New ?c = Some (Inr ?d0)"
    by (simp add: New_def Matrix_Compressor_def Matrix_InputLen_def Matrix_OutputLen_def Reset_def)
  have pos: "0 < d_blockSize ?d0" by simp
  have "case run_ops ?d0 ?ops of Some (Inr d) \<Rightarrow> d_nx d = 3 | _ \<Rightarrow> False"
    by code_simp
  then obtain d where d: "run_ops ?d0 ?ops = Some (Inr d)" "d_nx d = 3"
    by (auto split: option.splits sum.splits)
  then have "d_blockSize d = d_blockSize ?d0 \<and> 0 \<le> d_nx d \<and> d_nx d < d_blockSize d"
    using C10_carry_below_block_size [OF wf_Matrix_Compressor new pos] by blast
  then show ?thesis using new d by auto
qed

text \<open>
  C3. For a digest of \<^verbatim>\<open>New\<close> on a well-formed compressor of positive block size,
  every message and every way of splitting it into a finite sequence of chunks:
  \<^verbatim>\<open>Write\<close> on each chunk in order and then \<^verbatim>\<open>Sum\<close> has the outcome of one
  \<^verbatim>\<open>Write\<close> of the whole message on the fresh digest and then \<^verbatim>\<open>Sum\<close>: the same
  bytes, or the same panic of the compressor. Neither runs forever.
\<close>

theorem C3_chunked_Write_eq_whole_Write:
  assumes "wf_Compressor c" "New c = Some (Inr d0)" "0 < d_blockSize d0"
  shows "and_then (Write_all d0 chunks) (\<lambda>d. Sum d inp) =
           and_then (Write d0 (concat chunks)) (\<lambda>d. Sum d inp) \<and>
         and_then (Write d0 (concat chunks)) (\<lambda>d. Sum d inp) \<noteq> None"
proof
  have ok: "digest_ok d0" using assms by (rule New_digest_ok)
  show "and_then (Write_all d0 chunks) (\<lambda>d. Sum d inp) =
      and_then (Write d0 (concat chunks)) (\<lambda>d. Sum d inp)"
  proof (rule and_then_Sum_view)
    show "map_res view (Write_all d0 chunks) = map_res view (Write d0 (concat chunks))"
      using ok by (rule Write_all_concat_view)
  next
    fix a assume "Write_all d0 chunks = Some (Inr a)"
    then show "digest_ok a" using Write_all_ok [OF ok] by simp
  next
    fix a assume "Write d0 (concat chunks) = Some (Inr a)"
    then show "digest_ok a" using Write_ok(1) [OF ok] by simp
  qed
  show "and_then (Write d0 (concat chunks)) (\<lambda>d. Sum d inp) \<noteq> None"
  proof (rule and_then_Sum_returns)
    show "Write d0 (concat chunks) \<noteq> None" using ok by (rule Write_returns)
  next
    fix a assume "Write d0 (concat chunks) = Some (Inr a)"
    then show "digest_ok a" using Write_ok(1) [OF ok] by simp
  qed
qed

theorem C3_chunked_Write_eq_whole_Write_witness:
  "and_then (New (Matrix_Compressor [map of_nat [1..<129]]))
     (\<lambda>d0. and_then (Write_all d0 [[1, 2, 3], [4, 5, 6, 7, 8, 9, 10, 11, 12]]) (\<lambda>d. Sum d [])) =
     Some (Inr [118, 0, 0, 0, 0, 0, 0, 0]) \<and>
   and_then (New (Matrix_Compressor [map of_nat [1..<129]]))
     (\<lambda>d0. and_then (Write d0 [1, 2, 3, 4, 5, 6, 7, 8, 9, 10, 11, 12]) (\<lambda>d. Sum d [])) =
     Some (Inr [118, 0, 0, 0, 0, 0, 0, 0])"
proof -
  let ?c = "Matrix_Compressor [map of_nat [1..<129]]"
  let ?d0 = "\<lparr>d_c = ?c, d_size = 8, d_blockSize = 8,
               d_h = [0], d_x = [0, 0, 0, 0, 0, 0, 0, 0], d_nx = 0, d_len = 0, d_calls = []\<rparr>"
  have new: "New ?c = Some (Inr ?d0)" by (rule New_Matrix_1x128) simp
  have pos: "0 < d_blockSize ?d0" by simp
  have whole: "and_then (New ?c)
     (\<lambda>d0. and_then (Write d0 [1, 2, 3, 4, 5, 6, 7, 8, 9, 10, 11, 12]) (\<lambda>d. Sum d [])) =
     Some (Inr [118, 0, 0, 0, 0, 0, 0, 0])"
    by code_simp
  have "and_then (Write_all ?d0 [[1, 2, 3], [4, 5, 6, 7, 8, 9, 10, 11, 12]]) (\<lambda>d. Sum d []) =
      and_then (Write ?d0 (concat [[1, 2, 3], [4, 5, 6, 7, 8, 9, 10, 11, 12]])) (\<lambda>d. Sum d [])"
    using C3_chunked_Write_eq_whole_Write [OF wf_Matrix_Compressor new pos] by blast
  then show ?thesis using whole unfolding new by simp
qed

text \<open>
  C6. For a digest of \<^verbatim>\<open>New\<close> on a well-formed compressor of positive block size
  and messages \<open>X\<close> and \<open>Y\<close>: after \<^verbatim>\<open>Write(X)\<close> has returned, \<^verbatim>\<open>Reset\<close>,
  \<^verbatim>\<open>Write(Y)\<close> and \<^verbatim>\<open>Sum\<close> have the outcome of \<^verbatim>\<open>Write(Y)\<close> and
  \<^verbatim>\<open>Sum\<close> on the fresh digest.
\<close>

theorem C6_Reset_eq_fresh:
  assumes "wf_Compressor c" "New c = Some (Inr d0)" "0 < d_blockSize d0"
    "Write d0 X = Some (Inr d1)"
  shows "and_then (Write (Reset d1) Y) (\<lambda>d. Sum d inp) =
           and_then (Write d0 Y) (\<lambda>d. Sum d inp) \<and>
         and_then (Write d0 Y) (\<lambda>d. Sum d inp) \<noteq> None"
proof
  have ok0: "digest_ok d0" using assms(1-3) by (rule New_digest_ok)
  have ok1: "digest_ok d1" using Write_ok(1) [OF ok0 assms(4)] .
  have okr: "digest_ok (Reset d1)" using ok1 by (rule Reset_ok)
  have h0: "d_h d0 = replicate (length (d_h d0)) 0" "d_nx d0 = 0" "d_len d0 = 0"
    using New_ok [OF assms(1-3)] by simp_all
  have "map (\<lambda>_. 0) (d_h d1) = replicate (length (d_h d1)) (0::u64)"
    by (simp add: map_replicate_const)
  then have h: "d_h (Reset d1) = d_h d0"
    using h0(1) Write_ok(5) [OF ok0 assms(4)] by (simp add: Reset_def)
  have v: "view (Reset d1) = view d0"
    using h h0(2,3) Write_ok(2-4) [OF ok0 assms(4)]
    by (intro digest.equality) (simp_all add: view_def pending_def Reset_def)
  show "and_then (Write (Reset d1) Y) (\<lambda>d. Sum d inp) =
      and_then (Write d0 Y) (\<lambda>d. Sum d inp)"
  proof (rule and_then_Sum_view)
    show "map_res view (Write (Reset d1) Y) = map_res view (Write d0 Y)"
      using okr ok0 v by (rule view_ok_Write)
  next
    fix a assume "Write (Reset d1) Y = Some (Inr a)"
    then show "digest_ok a" using Write_ok(1) [OF okr] by simp
  next
    fix a assume "Write d0 Y = Some (Inr a)"
    then show "digest_ok a" using Write_ok(1) [OF ok0] by simp
  qed
  show "and_then (Write d0 Y) (\<lambda>d. Sum d inp) \<noteq> None"
  proof (rule and_then_Sum_returns)
    show "Write d0 Y \<noteq> None" using ok0 by (rule Write_returns)
  next
    fix a assume "Write d0 Y = Some (Inr a)"
    then show "digest_ok a" using Write_ok(1) [OF ok0] by simp
  qed
qed

theorem C6_Reset_eq_fresh_witness:
  "and_then (New (Matrix_Compressor [map of_nat [1..<129]]))
     (\<lambda>d0. and_then (Write d0 [9, 9, 9, 9, 9, 9, 9, 9, 9, 9])
        (\<lambda>d1. and_then (Write (Reset d1) [1, 2, 3, 4, 5, 6, 7, 8, 9, 10, 11, 12]) (\<lambda>d. Sum d []))) =
     Some (Inr [118, 0, 0, 0, 0, 0, 0, 0]) \<and>
   and_then (New (Matrix_Compressor [map of_nat [1..<129]]))
     (\<lambda>d0. and_then (Write d0 [1, 2, 3, 4, 5, 6, 7, 8, 9, 10, 11, 12]) (\<lambda>d. Sum d [])) =
     Some (Inr [118, 0, 0, 0, 0, 0, 0, 0])"
proof -
  let ?c = "Matrix_Compressor [map of_nat [1..<129]]"
  let ?d0 = "\<lparr>d_c = ?c, d_size = 8, d_blockSize = 8,
               d_h = [0], d_x = [0, 0, 0, 0, 0, 0, 0, 0], d_nx = 0, d_len = 0, d_calls = []\<rparr>"
  let ?X = "[9, 9, 9, 9, 9, 9, 9, 9, 9, 9] :: byte list"
  let ?Y = "[1, 2, 3, 4, 5, 6, 7, 8, 9, 10, 11, 12] :: byte list"
  have new: "New ?c = Some (Inr ?d0)" by (rule New_Matrix_1x128) simp
  have pos: "0 < d_blockSize ?d0" by simp
  have fresh: "and_then (New ?c) (\<lambda>d0. and_then (Write d0 ?Y) (\<lambda>d. Sum d [])) =
     Some (Inr [118, 0, 0, 0, 0, 0, 0, 0])"
    by code_simp
  have "case Write ?d0 ?X of Some (Inr d1) \<Rightarrow> True | _ \<Rightarrow> False"
    by code_simp
  then obtain d1 where d1: "Write ?d0 ?X = Some (Inr d1)"
    by (auto split: option.splits sum.splits)
  have "and_then (Write (Reset d1) ?Y) (\<lambda>d. Sum d []) = and_then (Write ?d0 ?Y) (\<lambda>d. Sum d [])"
    using C6_Reset_eq_fresh [OF wf_Matrix_Compressor new pos d1] by blast
  then show ?thesis using fresh d1 unfolding new by simp
qed

end
